theory Spec2Isabelle
  imports Complex_Main "HOL-Library.List_Lexorder"
begin

section \<open>Python strings and the list operations the chunker uses\<close>

text \<open>
  A Python \<open>str\<close> is a sequence of Unicode code points; it is modelled as a list of
  natural numbers. \<open>str\<close> turns an ASCII literal into such a list.
\<close>

type_synonym pystr = "nat list"

definition str :: "string \<Rightarrow> pystr" where
  "str cs = map of_char cs"

text \<open>The code points for which CPython's \<open>str.split()\<close> splits (\<open>Py_UNICODE_ISSPACE\<close>).\<close>

definition is_space :: "nat \<Rightarrow> bool" where
  "is_space c \<longleftrightarrow>
     (9 \<le> c \<and> c \<le> 13) \<or> (28 \<le> c \<and> c \<le> 32) \<or> c = 133 \<or> c = 160 \<or> c = 5760 \<or>
     (8192 \<le> c \<and> c \<le> 8202) \<or> c = 8232 \<or> c = 8233 \<or> c = 8239 \<or> c = 8287 \<or> c = 12288"

text \<open>
  \<open>text.split()\<close> with no argument: runs of whitespace separate the words, and no
  empty word is produced. \<open>w\<close> is the word read so far.
\<close>

fun split_from :: "pystr \<Rightarrow> pystr \<Rightarrow> pystr list" where
  "split_from w [] = (if w = [] then [] else [w])"
| "split_from w (c # cs) =
     (if is_space c then (if w = [] then split_from [] cs else w # split_from [] cs)
      else split_from (w @ [c]) cs)"

definition py_split :: "pystr \<Rightarrow> pystr list" where
  "py_split s = split_from [] s"

text \<open>\<open>sep.join(ws)\<close>.\<close>

fun py_join :: "pystr \<Rightarrow> pystr list \<Rightarrow> pystr" where
  "py_join sep [] = []"
| "py_join sep [w] = w"
| "py_join sep (w # v # ws) = w @ sep @ py_join sep (v # ws)"

text \<open>
  \<open>xs[lo:hi]\<close> on Python integers: a negative bound counts from the end, and both
  bounds are then clamped to \<open>0..len(xs)\<close>.
\<close>

definition slice_bound :: "int \<Rightarrow> int \<Rightarrow> int" where
  "slice_bound n b = (let b' = (if b < 0 then b + n else b) in
                      if b' < 0 then 0 else if n \<le> b' then n else b')"

definition py_slice :: "'a list \<Rightarrow> int \<Rightarrow> int \<Rightarrow> 'a list" where
  "py_slice xs lo hi =
     (let n = int (length xs); a = slice_bound n lo; b = slice_bound n hi
      in take (nat (b - a)) (drop (nat a) xs))"

section \<open>The chunker (\<open>app/ingestion.py\<close>)\<close>

text \<open>
  The \<open>while\<close> loop of \<open>chunk_text\<close>. The loop has no bound of its own, so it is a
  partial function: \<open>None\<close> is the loop that never exits.
\<close>

partial_function (option) chunk_loop ::
  "pystr list \<Rightarrow> int \<Rightarrow> int \<Rightarrow> int \<Rightarrow> pystr list \<Rightarrow> pystr list option" where
  "chunk_loop words chunk_size overlap i chunks =
     (if i < int (length words)
      then chunk_loop words chunk_size overlap (i + (chunk_size - overlap))
             (chunks @ [py_join (str '' '') (py_slice words i (i + chunk_size))])
      else Some chunks)"

definition chunk_text :: "pystr \<Rightarrow> int \<Rightarrow> int \<Rightarrow> pystr list option" where
  "chunk_text text chunk_size overlap = chunk_loop (py_split text) chunk_size overlap 0 []"

text \<open>
  The specification's reading of the chunker: the windows of \<open>width\<close> words that start
  every \<open>step\<close> words, and the word sequence left when the overlaps are removed.
\<close>

function windows_from :: "'a list \<Rightarrow> nat \<Rightarrow> nat \<Rightarrow> nat \<Rightarrow> 'a list list" where
  "windows_from ws width step i =
     (if i < length ws \<and> 0 < step
      then take width (drop i ws) # windows_from ws width step (i + step)
      else [])"
  by pat_completeness auto
termination
  by (relation "measure (\<lambda>(ws, width, step, i). length ws - i)") auto

declare windows_from.simps [simp del]

definition remove_overlaps :: "nat \<Rightarrow> 'a list list \<Rightarrow> 'a list" where
  "remove_overlaps ov cs =
     (case cs of [] \<Rightarrow> [] | c # rest \<Rightarrow> c @ concat (map (drop ov) rest))"

text \<open>A word as \<open>split()\<close> returns it: not empty, and free of whitespace.\<close>

definition is_word :: "pystr \<Rightarrow> bool" where
  "is_word w \<longleftrightarrow> w \<noteq> [] \<and> (\<forall>c \<in> set w. \<not> is_space c)"

section \<open>Python values\<close>

text \<open>
  The values that \<open>json.load\<close> produces and that the pipeline passes around.
  A float is a finite number, an infinity or NaN; the model only compares floats and
  tests them for zero. A \<open>dict\<close> with string keys is an association list in
  insertion order.
\<close>

datatype pyfloat = FNum rat | FInf | FNegInf | FNaN

datatype pyval =
    PNone
  | PBool bool
  | PInt int
  | PFloat pyfloat
  | PStr pystr
  | PList "pyval list"
  | PDict "(pystr \<times> pyval) list"

type_synonym pydict = "(pystr \<times> pyval) list"

datatype error =
    RuntimeError pystr
  | ReadError
  | AttributeError
  | TypeError
  | KeyError
  | IndexError

text \<open>\<open>d.get(k)\<close>, \<open>d.get(k, dflt)\<close> and \<open>d[k] = v\<close> on a \<open>dict\<close>.\<close>

definition dict_get :: "pydict \<Rightarrow> pystr \<Rightarrow> pyval" where
  "dict_get d k = (case map_of d k of None \<Rightarrow> PNone | Some v \<Rightarrow> v)"

definition dict_get_default :: "pydict \<Rightarrow> pystr \<Rightarrow> pyval \<Rightarrow> pyval" where
  "dict_get_default d k dflt = (case map_of d k of None \<Rightarrow> dflt | Some v \<Rightarrow> v)"

fun dict_set :: "pydict \<Rightarrow> pystr \<Rightarrow> pyval \<Rightarrow> pydict" where
  "dict_set [] k v = [(k, v)]"
| "dict_set ((k', v') # d) k v = (if k' = k then (k, v) # d else (k', v') # dict_set d k v)"

text \<open>Truth value of a Python value, and \<open>a or b\<close>.\<close>

fun truthy :: "pyval \<Rightarrow> bool" where
  "truthy PNone = False"
| "truthy (PBool b) = b"
| "truthy (PInt i) = (i \<noteq> 0)"
| "truthy (PFloat f) = (f \<noteq> FNum 0)"
| "truthy (PStr s) = (s \<noteq> [])"
| "truthy (PList xs) = (xs \<noteq> [])"
| "truthy (PDict d) = (d \<noteq> [])"

definition py_or :: "pyval \<Rightarrow> pyval \<Rightarrow> pyval" where
  "py_or a b = (if truthy a then a else b)"

text \<open>
  The items a \<open>for\<close> loop (or \<open>enumerate\<close>) draws from a value: the elements of a list,
  the characters of a string, the keys of a dict; anything else raises \<open>TypeError\<close>.
\<close>

fun py_iter :: "pyval \<Rightarrow> error + pyval list" where
  "py_iter (PList xs) = Inr xs"
| "py_iter (PStr s) = Inr (map (\<lambda>c. PStr [c]) s)"
| "py_iter (PDict d) = Inr (map (\<lambda>kv. PStr (fst kv)) d)"
| "py_iter v = Inl TypeError"

section \<open>The article corpus on disk\<close>

text \<open>
  The directory \<open>data/\<close>: the \<open>*.json\<close> files as \<open>glob\<close> lists them (in the order of the
  directory), each with what \<open>open\<close> and \<open>json.load\<close> give for it: the decoded document,
  or a failure.
\<close>

datatype json_file = Unreadable | Doc pyval

type_synonym datadir = "(pystr \<times> json_file) list"

definition read_json :: "datadir \<Rightarrow> pystr \<Rightarrow> json_file" where
  "read_json data_dir p = (case map_of data_dir p of None \<Rightarrow> Unreadable | Some f \<Rightarrow> f)"

section \<open>Collecting the chunks (\<open>app/embed_index.py\<close>)\<close>

definition metadata_entry ::
  "pyval \<Rightarrow> pyval \<Rightarrow> pyval \<Rightarrow> pyval \<Rightarrow> pyval \<Rightarrow> nat \<Rightarrow> pydict" where
  "metadata_entry doc_id title url source publishedAt i =
     [(str ''doc_id'', doc_id),
      (str ''title'', title),
      (str ''url'', url),
      (str ''source'', source),
      (str ''publishedAt'', publishedAt),
      (str ''chunk_index'', PInt (int i))]"

text \<open>The inner loop \<open>for i, chunk in enumerate(chunks)\<close>.\<close>

fun collect_chunks ::
  "(nat \<Rightarrow> pydict) \<Rightarrow> (nat \<times> pyval) list \<Rightarrow> pyval list \<times> pydict list \<Rightarrow>
   pyval list \<times> pydict list" where
  "collect_chunks entry [] (docs, metadatas) = (docs, metadatas)"
| "collect_chunks entry ((i, chunk) # rest) (docs, metadatas) =
     collect_chunks entry rest (docs @ [chunk], metadatas @ [entry i])"

text \<open>The outer loop \<open>for p in paths\<close>.\<close>

fun collect_files ::
  "datadir \<Rightarrow> pystr list \<Rightarrow> pyval list \<times> pydict list \<Rightarrow>
   error + (pyval list \<times> pydict list)" where
  "collect_files data_dir [] acc = Inr acc"
| "collect_files data_dir (p # paths) acc =
     (case read_json data_dir p of
        Unreadable \<Rightarrow> Inl ReadError
      | Doc (PDict rec) \<Rightarrow>
          (let doc_id = dict_get rec (str ''doc_id'');
               title = dict_get rec (str ''title'');
               url = dict_get rec (str ''url'');
               source = dict_get rec (str ''source'');
               publishedAt = dict_get rec (str ''publishedAt'');
               chunks = dict_get_default rec (str ''chunks'') (PList [])
           in case py_iter chunks of
                Inl e \<Rightarrow> Inl e
              | Inr cs \<Rightarrow>
                  collect_files data_dir paths
                    (collect_chunks (metadata_entry doc_id title url source publishedAt)
                       (enumerate 0 cs) acc))
      | Doc _ \<Rightarrow> Inl AttributeError)"

definition no_files_message :: pystr where
  "no_files_message = str ''No json files found in data. Run ingestion first.''"

definition collect_docs :: "datadir \<Rightarrow> error + (pyval list \<times> pydict list)" where
  "collect_docs data_dir =
     (let paths = sort (map fst data_dir)
      in if paths = [] then Inl (RuntimeError no_files_message)
         else collect_files data_dir paths ([], []))"

text \<open>
  The specification's reading of the corpus: the chunks of an article record with the
  metadata entry of each, and the corpus as the records in the order of their sorted
  paths.
\<close>

definition chunks_of :: "pydict \<Rightarrow> pyval list" where
  "chunks_of rec = (case dict_get_default rec (str ''chunks'') (PList []) of
                      PList cs \<Rightarrow> cs | _ \<Rightarrow> [])"

definition entry_of :: "pydict \<Rightarrow> nat \<Rightarrow> pydict" where
  "entry_of rec i =
     metadata_entry (dict_get rec (str ''doc_id'')) (dict_get rec (str ''title''))
       (dict_get rec (str ''url'')) (dict_get rec (str ''source''))
       (dict_get rec (str ''publishedAt'')) i"

definition record_entries :: "json_file \<Rightarrow> (pyval \<times> pydict) list" where
  "record_entries f =
     (case f of Doc (PDict rec) \<Rightarrow>
        map (\<lambda>(i, chunk). (chunk, entry_of rec i)) (enumerate 0 (chunks_of rec))
      | _ \<Rightarrow> [])"

definition corpus_entries :: "datadir \<Rightarrow> (pyval \<times> pydict) list" where
  "corpus_entries data_dir =
     concat (map (\<lambda>p. record_entries (read_json data_dir p)) (sort (map fst data_dir)))"

definition is_article :: "json_file \<Rightarrow> bool" where
  "is_article f =
     (case f of
        Doc (PDict rec) \<Rightarrow>
          (case dict_get_default rec (str ''chunks'') (PList []) of
             PList cs \<Rightarrow> True | _ \<Rightarrow> False)
      | _ \<Rightarrow> False)"

text \<open>Two small corpora used to run the model: the second holds one record with no chunk.\<close>

definition example_corpus :: datadir where
  "example_corpus =
     [(str ''data/b.json'', Doc (PDict [(str ''doc_id'', PStr (str ''b'')),
                                        (str ''chunks'', PList [PStr (str ''z'')])])),
      (str ''data/a.json'', Doc (PDict [(str ''doc_id'', PStr (str ''a'')),
                                        (str ''chunks'', PList [PStr (str ''x''), PStr (str ''y'')])]))]"

definition chunkless_corpus :: datadir where
  "chunkless_corpus =
     [(str ''data/x.json'', Doc (PDict [(str ''doc_id'', PStr (str ''x'')),
                                        (str ''chunks'', PList [])]))]"

section \<open>Keys of a Python dict\<close>

text \<open>
  \<open>data_map\<close> in \<open>app/rag.py\<close> is keyed by whatever \<open>rec.get("doc_id")\<close> is. A list or a
  dict is not hashable (\<open>TypeError\<close>); \<open>None\<close>, strings and numbers are, and numbers are
  equal as keys when they are equal as numbers (\<open>True == 1 == 1.0\<close>). NaN equals nothing
  (two decoded NaN are never the same object). \<open>key_of\<close> is the key a value stands for.
\<close>

datatype pykey = KNone | KStr pystr | KNum rat | KInf | KNegInf

fun key_of :: "pyval \<Rightarrow> pykey option" where
  "key_of PNone = Some KNone"
| "key_of (PBool b) = Some (KNum (if b then 1 else 0))"
| "key_of (PInt i) = Some (KNum (of_int i))"
| "key_of (PFloat (FNum r)) = Some (KNum r)"
| "key_of (PFloat FInf) = Some KInf"
| "key_of (PFloat FNegInf) = Some KNegInf"
| "key_of (PFloat FNaN) = None"
| "key_of (PStr s) = Some (KStr s)"
| "key_of (PList xs) = None"
| "key_of (PDict d) = None"

fun hashable :: "pyval \<Rightarrow> bool" where
  "hashable (PList xs) = False"
| "hashable (PDict d) = False"
| "hashable v = True"

definition key_eq :: "pyval \<Rightarrow> pyval \<Rightarrow> bool" where
  "key_eq a b = (case key_of a of None \<Rightarrow> False | Some k \<Rightarrow> key_of b = Some k)"

text \<open>\<open>m[k] = v\<close> and \<open>m.get(k)\<close> on a dict with such keys, as a list in insertion order.\<close>

fun map_set :: "(pyval \<times> 'v) list \<Rightarrow> pyval \<Rightarrow> 'v \<Rightarrow> (pyval \<times> 'v) list" where
  "map_set [] k v = [(k, v)]"
| "map_set ((k', v') # m) k v =
     (if key_eq k' k then (k', v) # m else (k', v') # map_set m k v)"

fun map_get :: "(pyval \<times> 'v) list \<Rightarrow> pyval \<Rightarrow> 'v option" where
  "map_get [] k = None"
| "map_get ((k', v') # m) k = (if key_eq k' k then Some v' else map_get m k)"

text \<open>\<open>isinstance(x, int)\<close> holds for integers and for booleans; the value as an integer.\<close>

fun as_int :: "pyval \<Rightarrow> int option" where
  "as_int (PInt i) = Some i"
| "as_int (PBool b) = Some (if b then 1 else 0)"
| "as_int v = None"

text \<open>\<open>len(x)\<close>, and \<open>x[n]\<close> for \<open>0 \<le> n < len(x)\<close>; a dict with string keys has no key \<open>n\<close>.\<close>

fun py_len :: "pyval \<Rightarrow> error + int" where
  "py_len (PList xs) = Inr (int (length xs))"
| "py_len (PStr s) = Inr (int (length s))"
| "py_len (PDict d) = Inr (int (length d))"
| "py_len v = Inl TypeError"

fun py_getitem :: "pyval \<Rightarrow> nat \<Rightarrow> error + pyval" where
  "py_getitem (PList xs) n = (if n < length xs then Inr (xs ! n) else Inl IndexError)"
| "py_getitem (PStr s) n = (if n < length s then Inr (PStr [s ! n]) else Inl IndexError)"
| "py_getitem (PDict d) n = Inl KeyError"
| "py_getitem v n = Inl TypeError"

section \<open>Evidence assembly (\<open>app/rag.py\<close>)\<close>

text \<open>
  A search result as \<open>query_index\<close> builds it: \<open>{"rank": ..., "score": ..., "metadata": ...}\<close>.
  The score is a float that the pipeline only passes on; its type is left open.
\<close>

record 's result =
  rank :: int
  score :: 's
  metadata :: pydict

definition placeholder :: pystr where
  "placeholder = str ''(passage text unavailable)''"

text \<open>The first loop of \<open>prepare_retrieved_with_texts\<close>: a file that fails is skipped.\<close>

fun load_data_map ::
  "datadir \<Rightarrow> pystr list \<Rightarrow> (pyval \<times> pydict) list \<Rightarrow> (pyval \<times> pydict) list" where
  "load_data_map data_dir [] data_map = data_map"
| "load_data_map data_dir (p # paths) data_map =
     (case read_json data_dir p of
        Doc (PDict rec) \<Rightarrow>
          (if hashable (dict_get rec (str ''doc_id''))
           then load_data_map data_dir paths (map_set data_map (dict_get rec (str ''doc_id'')) rec)
           else load_data_map data_dir paths data_map)
      | _ \<Rightarrow> load_data_map data_dir paths data_map)"

text \<open>
  The lookup of one item's chunk: \<open>None\<close> when the record or the position is not there.
  \<open>doc_id in data_map\<close> raises on an unhashable \<open>doc_id\<close>, \<open>len(chunks)\<close> and
  \<open>chunks[chunk_i]\<close> on a \<open>chunks\<close> field that is no sequence.
\<close>

definition lookup_chunk :: "(pyval \<times> pydict) list \<Rightarrow> pyval \<Rightarrow> pyval \<Rightarrow> error + pyval" where
  "lookup_chunk data_map doc_id chunk_i =
     (if \<not> truthy doc_id then Inr PNone
      else if \<not> hashable doc_id then Inl TypeError
      else case map_get data_map doc_id of
        None \<Rightarrow> Inr PNone
      | Some rec \<Rightarrow>
          (let chunks = dict_get_default rec (str ''chunks'') (PList [])
           in case as_int chunk_i of
                None \<Rightarrow> Inr PNone
              | Some n \<Rightarrow>
                  if \<not> 0 \<le> n then Inr PNone
                  else case py_len chunks of
                         Inl e \<Rightarrow> Inl e
                       | Inr len \<Rightarrow> if n < len then py_getitem chunks (nat n) else Inr PNone))"

definition enrich_item :: "(pyval \<times> pydict) list \<Rightarrow> 's result \<Rightarrow> error + 's result" where
  "enrich_item data_map item =
     (let md = metadata item;
          doc_id = dict_get md (str ''doc_id'');
          chunk_i = dict_get md (str ''chunk_index'')
      in case lookup_chunk data_map doc_id chunk_i of
           Inl e \<Rightarrow> Inl e
         | Inr chunk_txt \<Rightarrow>
             Inr \<lparr>rank = rank item, score = score item,
                  metadata =
                    (if truthy chunk_txt
                     then dict_set md (str ''chunk_text'') chunk_txt
                     else dict_set md (str ''chunk_text'')
                            (py_or (dict_get md (str ''chunk_text'')) (PStr placeholder)))\<rparr>)"

fun enrich_all ::
  "(pyval \<times> pydict) list \<Rightarrow> 's result list \<Rightarrow> 's result list \<Rightarrow> error + 's result list" where
  "enrich_all data_map [] enriched = Inr enriched"
| "enrich_all data_map (item # raw_results) enriched =
     (case enrich_item data_map item of
        Inl e \<Rightarrow> Inl e
      | Inr item' \<Rightarrow> enrich_all data_map raw_results (enriched @ [item']))"

definition prepare_retrieved_with_texts ::
  "datadir \<Rightarrow> 's result list \<Rightarrow> error + 's result list" where
  "prepare_retrieved_with_texts data_dir raw_results =
     enrich_all (load_data_map data_dir (map fst data_dir) []) raw_results []"

text \<open>
  \<open>build_evidence_block\<close>. \<open>fmt\<close> is Python's \<open>str()\<close>, which the f-string of the header
  applies to each value, and \<open>fill\<close> is \<open>textwrap.fill(_, width=500)\<close>; both belong to the
  Python library and are parameters here. \<open>fill\<close> raises on a passage that is no string.
\<close>

record citation =
  idx :: int
  title :: pyval
  url :: pyval
  source :: pyval

definition evidence_header ::
  "(pyval \<Rightarrow> pystr) \<Rightarrow> nat \<Rightarrow> pyval \<Rightarrow> pyval \<Rightarrow> pyval \<Rightarrow> pyval \<Rightarrow> pystr" where
  "evidence_header fmt i src ttl pub chunk_index =
     str ''['' @ fmt (PInt (int i)) @ str ''] ('' @ fmt src @ str '') '' @ fmt ttl @
     [32, 8212, 32] @ fmt pub @ [32, 8212, 32] @ str ''chunk:'' @ fmt chunk_index"

fun evidence_loop ::
  "(pyval \<Rightarrow> pystr) \<Rightarrow> (pystr \<Rightarrow> pystr) \<Rightarrow> (nat \<times> 's result) list \<Rightarrow>
   pystr list \<Rightarrow> citation list \<Rightarrow> error + (pystr list \<times> citation list)" where
  "evidence_loop fmt fill [] lines mapping = Inr (lines, mapping)"
| "evidence_loop fmt fill ((i, item) # rest) lines mapping =
     (let md = metadata item;
          ttl = py_or (dict_get md (str ''title'')) (PStr (str ''Untitled''));
          src = py_or (dict_get md (str ''source'')) (PStr []);
          link = py_or (dict_get md (str ''url'')) (PStr []);
          pub = py_or (dict_get md (str ''publishedAt'')) (PStr []);
          chunk_index = dict_get md (str ''chunk_index'');
          chunk_txt = py_or (py_or (dict_get md (str ''chunk_text'')) (dict_get md (str ''snippet'')))
                        (PStr placeholder);
          header = evidence_header fmt i src ttl pub chunk_index
      in case chunk_txt of
           PStr t \<Rightarrow>
             evidence_loop fmt fill rest (lines @ [header, fill t, []])
               (mapping @ [\<lparr>idx = int i, title = ttl, url = link, source = src\<rparr>])
         | _ \<Rightarrow> Inl AttributeError)"

definition evidence_lines ::
  "(pyval \<Rightarrow> pystr) \<Rightarrow> (pystr \<Rightarrow> pystr) \<Rightarrow> 's result list \<Rightarrow>
   error + (pystr list \<times> citation list)" where
  "evidence_lines fmt fill retrieved = evidence_loop fmt fill (enumerate 1 retrieved) [] []"

definition build_evidence_block ::
  "(pyval \<Rightarrow> pystr) \<Rightarrow> (pystr \<Rightarrow> pystr) \<Rightarrow> 's result list \<Rightarrow>
   error + (pystr \<times> citation list)" where
  "build_evidence_block fmt fill retrieved =
     (case evidence_lines fmt fill retrieved of
        Inl e \<Rightarrow> Inl e
      | Inr (lines, mapping) \<Rightarrow> Inr (py_join [10] lines, mapping))"

text \<open>
  The inputs the pipeline itself produces. A stored record is a file of \<open>data/\<close> as
  ingestion writes it (its \<open>chunks\<close> a list of strings), or a file that does not decode to
  a dict (evidence assembly skips it). An index entry is a metadata entry as
  \<open>collect_docs\<close> builds it, with an identifier that can be a key. A lookup fails when no
  readable record carries the entry's identifier, or when every record that does has no
  chunk at the entry's position.
\<close>

definition is_text :: "pyval \<Rightarrow> bool" where
  "is_text v = (case v of PStr s \<Rightarrow> True | _ \<Rightarrow> False)"

definition stored_record :: "json_file \<Rightarrow> bool" where
  "stored_record f =
     (case f of
        Doc (PDict rec) \<Rightarrow>
          (case dict_get_default rec (str ''chunks'') (PList []) of
             PList cs \<Rightarrow> list_all is_text cs | _ \<Rightarrow> False)
      | _ \<Rightarrow> True)"

definition index_entry :: "pydict \<Rightarrow> bool" where
  "index_entry md \<longleftrightarrow>
     map fst md = [str ''doc_id'', str ''title'', str ''url'', str ''source'',
                   str ''publishedAt'', str ''chunk_index''] \<and>
     hashable (dict_get md (str ''doc_id''))"

definition out_of_range :: "pyval \<Rightarrow> nat \<Rightarrow> bool" where
  "out_of_range chunk_i n = (case as_int chunk_i of None \<Rightarrow> True | Some k \<Rightarrow> k < 0 \<or> int n \<le> k)"

definition lookup_fails :: "datadir \<Rightarrow> pydict \<Rightarrow> bool" where
  "lookup_fails data_dir md =
     list_all
       (\<lambda>p. case read_json data_dir p of
              Doc (PDict rec) \<Rightarrow>
                key_eq (dict_get rec (str ''doc_id'')) (dict_get md (str ''doc_id'')) \<longrightarrow>
                out_of_range (dict_get md (str ''chunk_index'')) (length (chunks_of rec))
            | _ \<Rightarrow> True)
       (map fst data_dir)"

definition example_results :: "rat result list" where
  "example_results =
     [\<lparr>rank = 1, score = 1 / 2, metadata = entry_of [(str ''doc_id'', PStr (str ''a''))] 1\<rparr>,
      \<lparr>rank = 2, score = 3 / 4, metadata = entry_of [(str ''doc_id'', PStr (str ''gone''))] 0\<rparr>,
      \<lparr>rank = 3, score = 1, metadata = entry_of [(str ''doc_id'', PStr (str ''b''))] 1\<rparr>]"

section \<open>Python's JSON decoder\<close>

text \<open>
  \<open>json.JSONDecoder\<close> of the Python library, as \<open>app/ollama_client.py\<close> uses it. A parser
  takes the text from the position it starts at and returns the value with the text
  that follows it; \<open>None\<close> is \<open>JSONDecodeError\<close>. \<open>parse_float\<close> (Python's \<open>float\<close> on the
  text of a number with a fraction or an exponent) is a parameter. Code points:
  \<open>"\<close> 34, \<open>\\<close> 92, \<open>{\<close> 123, \<open>}\<close> 125, \<open>[\<close> 91, \<open>]\<close> 93, \<open>:\<close> 58, \<open>,\<close> 44, \<open>-\<close> 45, \<open>+\<close> 43,
  \<open>.\<close> 46, \<open>0\<close> 48, \<open>9\<close> 57, \<open>e\<close> 101, \<open>E\<close> 69, \<open>u\<close> 117.
\<close>

definition json_ws :: "nat \<Rightarrow> bool" where
  "json_ws c \<longleftrightarrow> c = 32 \<or> c = 9 \<or> c = 10 \<or> c = 13"

definition skip_ws :: "pystr \<Rightarrow> pystr" where
  "skip_ws s = dropWhile json_ws s"

definition is_digit :: "nat \<Rightarrow> bool" where
  "is_digit c \<longleftrightarrow> 48 \<le> c \<and> c \<le> 57"

definition digits_val :: "pystr \<Rightarrow> int" where
  "digits_val ds = foldl (\<lambda>a c. 10 * a + (int c - 48)) 0 ds"

definition hexval :: "nat \<Rightarrow> nat option" where
  "hexval c =
     (if 48 \<le> c \<and> c \<le> 57 then Some (c - 48)
      else if 97 \<le> c \<and> c \<le> 102 then Some (c - 87)
      else if 65 \<le> c \<and> c \<le> 70 then Some (c - 55)
      else None)"

text \<open>The four hexadecimal digits of a \<open>\uXXXX\<close> escape.\<close>

fun decode_u :: "pystr \<Rightarrow> (nat \<times> pystr) option" where
  "decode_u (a # b # c # d # rest) =
     (case (hexval a, hexval b, hexval c, hexval d) of
        (Some w, Some x, Some y, Some z) \<Rightarrow> Some (((w * 16 + x) * 16 + y) * 16 + z, rest)
      | _ \<Rightarrow> None)"
| "decode_u s = None"

definition backslash :: "nat \<Rightarrow> nat option" where
  "backslash e =
     (if e = 34 then Some 34 else if e = 92 then Some 92 else if e = 47 then Some 47
      else if e = 98 then Some 8 else if e = 102 then Some 12 else if e = 110 then Some 10
      else if e = 114 then Some 13 else if e = 116 then Some 9 else None)"

text \<open>
  \<open>scanstring\<close> (strict): the text after the opening quote, up to the closing quote. A
  control character in the string is an error. The first argument bounds the number of
  steps; the length of the text is enough.
\<close>

fun scanstring :: "nat \<Rightarrow> pystr \<Rightarrow> pystr \<Rightarrow> (pystr \<times> pystr) option" where
  "scanstring 0 acc s = None"
| "scanstring (Suc n) acc [] = None"
| "scanstring (Suc n) acc (c # cs) =
     (if c = 34 then Some (acc, cs)
      else if c = 92 then
        (case cs of
           [] \<Rightarrow> None
         | e # es \<Rightarrow>
             if e = 117 then
               (case decode_u es of
                  None \<Rightarrow> None
                | Some (uni, r) \<Rightarrow>
                    if 55296 \<le> uni \<and> uni \<le> 56319 \<and> take 2 r = [92, 117] then
                      (case decode_u (drop 2 r) of
                         None \<Rightarrow> None
                       | Some (uni2, r2) \<Rightarrow>
                           if 56320 \<le> uni2 \<and> uni2 \<le> 57343
                           then scanstring n
                                  (acc @ [65536 + ((uni - 55296) * 1024 + (uni2 - 56320))]) r2
                           else scanstring n (acc @ [uni]) r)
                    else scanstring n (acc @ [uni]) r)
             else (case backslash e of
                     None \<Rightarrow> None
                   | Some ch \<Rightarrow> scanstring n (acc @ [ch]) es))
      else if c < 32 then None
      else scanstring n (acc @ [c]) cs)"

text \<open>\<open>NUMBER_RE\<close>: \<open>-?(0|[1-9][0-9]*)(\.[0-9]+)?([eE][-+]?[0-9]+)?\<close>.\<close>

definition exp_part :: "pystr \<Rightarrow> pystr \<times> pystr" where
  "exp_part s =
     (case s of
        [] \<Rightarrow> ([], s)
      | c # r \<Rightarrow>
          if c = 101 \<or> c = 69 then
            (let (sg, r') = (case r of
                               [] \<Rightarrow> ([], r)
                             | d # r2 \<Rightarrow> if d = 43 \<or> d = 45 then ([d], r2) else ([], r))
             in case r' of
                  [] \<Rightarrow> ([], s)
                | d # r2 \<Rightarrow>
                    if is_digit d then (c # sg @ takeWhile is_digit r', dropWhile is_digit r')
                    else ([], s))
          else ([], s))"

definition frac_part :: "pystr \<Rightarrow> pystr \<times> pystr" where
  "frac_part s =
     (case s of
        c # d # r \<Rightarrow>
          if c = 46 \<and> is_digit d
          then (c # takeWhile is_digit (d # r), dropWhile is_digit (d # r))
          else ([], s)
      | _ \<Rightarrow> ([], s))"

definition int_part :: "pystr \<Rightarrow> (pystr \<times> pystr) option" where
  "int_part s =
     (case s of
        [] \<Rightarrow> None
      | c # r \<Rightarrow>
          if c = 48 then Some ([c], r)
          else if 49 \<le> c \<and> c \<le> 57 then Some (takeWhile is_digit s, dropWhile is_digit s)
          else None)"

definition match_number :: "(pystr \<Rightarrow> pyfloat) \<Rightarrow> pystr \<Rightarrow> (pyval \<times> pystr) option" where
  "match_number parse_float s =
     (let (sign, s1) = (case s of
                          [] \<Rightarrow> ([], s)
                        | c # r \<Rightarrow> if c = 45 then ([c], r) else ([], s))
      in case int_part s1 of
           None \<Rightarrow> None
         | Some (digits, s2) \<Rightarrow>
             (let (frac, s3) = frac_part s2; (ex, s4) = exp_part s3
              in if frac \<noteq> [] \<or> ex \<noteq> []
                 then Some (PFloat (parse_float (sign @ digits @ frac @ ex)), s4)
                 else Some (PInt (if sign = [] then digits_val digits else - digits_val digits),
                            s4)))"

text \<open>\<open>dict(pairs)\<close>: a key that comes again keeps its place and takes the later value.\<close>

definition dict_of_pairs :: "(pystr \<times> pyval) list \<Rightarrow> pydict" where
  "dict_of_pairs pairs = foldl (\<lambda>d kv. dict_set d (fst kv) (snd kv)) [] pairs"

text \<open>
  \<open>scan_once\<close>, \<open>JSONObject\<close> (from the first key on) and \<open>JSONArray\<close> (from the first
  element on). The second argument bounds the number of values read.
\<close>

fun scan_once :: "(pystr \<Rightarrow> pyfloat) \<Rightarrow> nat \<Rightarrow> pystr \<Rightarrow> (pyval \<times> pystr) option"
  and parse_object :: "(pystr \<Rightarrow> pyfloat) \<Rightarrow> nat \<Rightarrow> pystr \<Rightarrow> (pystr \<times> pyval) list \<Rightarrow>
                       (pyval \<times> pystr) option"
  and parse_array :: "(pystr \<Rightarrow> pyfloat) \<Rightarrow> nat \<Rightarrow> pystr \<Rightarrow> pyval list \<Rightarrow>
                      (pyval \<times> pystr) option" where
  "scan_once pf 0 s = None"
| "scan_once pf (Suc n) [] = None"
| "scan_once pf (Suc n) (c # cs) =
     (if c = 34 then
        (case scanstring (length cs) [] cs of
           None \<Rightarrow> None
         | Some (t, r) \<Rightarrow> Some (PStr t, r))
      else if c = 123 then
        (case skip_ws cs of
           [] \<Rightarrow> None
         | d # r \<Rightarrow>
             if d = 125 then Some (PDict [], r)
             else if d = 34 then parse_object pf n r []
             else None)
      else if c = 91 then
        (case skip_ws cs of
           [] \<Rightarrow> None
         | d # r \<Rightarrow> if d = 93 then Some (PList [], r) else parse_array pf n (d # r) [])
      else if take 4 (c # cs) = str ''null'' then Some (PNone, drop 4 (c # cs))
      else if take 4 (c # cs) = str ''true'' then Some (PBool True, drop 4 (c # cs))
      else if take 5 (c # cs) = str ''false'' then Some (PBool False, drop 5 (c # cs))
      else case match_number pf (c # cs) of
             Some r \<Rightarrow> Some r
           | None \<Rightarrow>
               if take 3 (c # cs) = str ''NaN'' then Some (PFloat FNaN, drop 3 (c # cs))
               else if take 8 (c # cs) = str ''Infinity'' then Some (PFloat FInf, drop 8 (c # cs))
               else if take 9 (c # cs) = str ''-Infinity''
               then Some (PFloat FNegInf, drop 9 (c # cs))
               else None)"
| "parse_object pf 0 s pairs = None"
| "parse_object pf (Suc n) s pairs =
     (case scanstring (length s) [] s of
        None \<Rightarrow> None
      | Some (key, r1) \<Rightarrow>
          (case skip_ws r1 of
             [] \<Rightarrow> None
           | c # r2 \<Rightarrow>
               if c = 58 then
                 (case scan_once pf n (skip_ws r2) of
                    None \<Rightarrow> None
                  | Some (v, r3) \<Rightarrow>
                      (case skip_ws r3 of
                         [] \<Rightarrow> None
                       | d # r4 \<Rightarrow>
                           if d = 125 then Some (PDict (dict_of_pairs (pairs @ [(key, v)])), r4)
                           else if d = 44 then
                             (case skip_ws r4 of
                                [] \<Rightarrow> None
                              | e # r5 \<Rightarrow>
                                  if e = 34 then parse_object pf n r5 (pairs @ [(key, v)])
                                  else None)
                           else None))
               else None))"
| "parse_array pf 0 s items = None"
| "parse_array pf (Suc n) s items =
     (case scan_once pf n s of
        None \<Rightarrow> None
      | Some (v, r1) \<Rightarrow>
          (case skip_ws r1 of
             [] \<Rightarrow> None
           | d # r2 \<Rightarrow>
               if d = 93 then Some (PList (items @ [v]), r2)
               else if d = 44 then parse_array pf n (skip_ws r2) (items @ [v])
               else None))"

text \<open>
  \<open>raw_decode(s, i)\<close> gives the value that starts at \<open>i\<close> and the index after it;
  \<open>json.loads(s)\<close> allows whitespace around the one value and nothing else.
\<close>

definition raw_decode :: "(pystr \<Rightarrow> pyfloat) \<Rightarrow> pystr \<Rightarrow> nat \<Rightarrow> (pyval \<times> nat) option" where
  "raw_decode pf s i =
     (case scan_once pf (Suc (length s)) (drop i s) of
        None \<Rightarrow> None
      | Some (obj, rest) \<Rightarrow> Some (obj, length s - length rest))"

definition json_loads :: "(pystr \<Rightarrow> pyfloat) \<Rightarrow> pystr \<Rightarrow> pyval option" where
  "json_loads pf s =
     (case scan_once pf (Suc (length s)) (skip_ws s) of
        None \<Rightarrow> None
      | Some (obj, rest) \<Rightarrow> if skip_ws rest = [] then Some obj else None)"

section \<open>Reading the generation response (\<open>app/ollama_client.py\<close>)\<close>

text \<open>\<open>s.find(c, pos)\<close> for a single character, and \<open>s.strip()\<close>.\<close>

definition py_find :: "pystr \<Rightarrow> nat \<Rightarrow> nat \<Rightarrow> nat option" where
  "py_find s c pos =
     (let r = dropWhile (\<lambda>x. x \<noteq> c) (drop pos s)
      in if r = [] then None else Some (length s - length r))"

definition py_strip :: "pystr \<Rightarrow> pystr" where
  "py_strip s = rev (dropWhile is_space (rev (dropWhile is_space s)))"

text \<open>
  The loop of \<open>_extract_json_objects_from_text\<close>: find the next \<open>{\<close>, decode from there; on
  failure go on one character after the brace.
\<close>

partial_function (option) extract_loop ::
  "(pystr \<Rightarrow> pyfloat) \<Rightarrow> pystr \<Rightarrow> nat \<Rightarrow> pyval list \<Rightarrow> pyval list option" where
  "extract_loop pf s pos objs =
     (case py_find s 123 pos of
        None \<Rightarrow> Some objs
      | Some brace \<Rightarrow>
          (case raw_decode pf s brace of
             Some (obj, end) \<Rightarrow> extract_loop pf s end (objs @ [obj])
           | None \<Rightarrow> extract_loop pf s (brace + 1) objs))"

definition extract_json_objects_from_text ::
  "(pystr \<Rightarrow> pyfloat) \<Rightarrow> pystr \<Rightarrow> pyval list option" where
  "extract_json_objects_from_text pf s = extract_loop pf s 0 []"

text \<open>
  \<open>_assemble_responses_from_objs\<close>: the parts one object adds, in the order of the
  branches of the source; \<open>"".join(parts)\<close> raises on a part that is no string.
\<close>

fun output_item_parts :: "pyval \<Rightarrow> pyval list" where
  "output_item_parts (PStr s) = [PStr s]"
| "output_item_parts (PDict it) =
     (case map_of it (str ''response'') of Some v \<Rightarrow> [v] | None \<Rightarrow> [])"
| "output_item_parts v = []"

definition obj_parts :: "pyval \<Rightarrow> pyval list" where
  "obj_parts ob =
     (case ob of
        PDict d \<Rightarrow>
          (case map_of d (str ''response'') of
             Some (PStr s) \<Rightarrow> [PStr s]
           | _ \<Rightarrow>
             (case map_of d (str ''text'') of
                Some (PStr s) \<Rightarrow> [PStr s]
              | _ \<Rightarrow>
                (case map_of d (str ''output'') of
                   Some out \<Rightarrow>
                     (case out of
                        PList its \<Rightarrow> concat (map output_item_parts its)
                      | PStr s \<Rightarrow> [PStr s]
                      | _ \<Rightarrow> [])
                 | None \<Rightarrow>
                     (case map_of d (str ''message'') of
                        Some (PDict msg) \<Rightarrow>
                          (case py_or (dict_get msg (str ''content'')) (dict_get msg (str ''text'')) of
                             PStr s \<Rightarrow> [PStr s]
                           | _ \<Rightarrow> [])
                      | _ \<Rightarrow> []))))
      | _ \<Rightarrow> [])"

fun join_parts :: "pyval list \<Rightarrow> error + pystr" where
  "join_parts [] = Inr []"
| "join_parts (PStr s # parts) =
     (case join_parts parts of Inl e \<Rightarrow> Inl e | Inr t \<Rightarrow> Inr (s @ t))"
| "join_parts (v # parts) = Inl TypeError"

definition assemble_responses_from_objs :: "pyval list \<Rightarrow> error + pystr" where
  "assemble_responses_from_objs objs =
     (case join_parts (concat (map obj_parts objs)) of
        Inl e \<Rightarrow> Inl e
      | Inr t \<Rightarrow> Inr (py_strip t))"

text \<open>
  \<open>generate_with_ollama\<close> from the decoded response body \<open>raw_text\<close> on. \<open>fmt\<close> is Python's
  \<open>str()\<close> and \<open>dumps\<close> is \<open>json.dumps\<close>. The outer \<open>None\<close> is the extraction loop that
  never returns.
\<close>

fun first_text :: "(pyval \<Rightarrow> pystr) \<Rightarrow> pydict \<Rightarrow> pystr list \<Rightarrow> pystr option" where
  "first_text fmt parsed [] = None"
| "first_text fmt parsed (k # ks) =
     (case map_of parsed k of
        Some (PStr val) \<Rightarrow> Some (py_strip val)
      | Some (PList val) \<Rightarrow> Some (py_strip (py_join (str '' '') (map fmt val)))
      | _ \<Rightarrow> first_text fmt parsed ks)"

definition single_object_text ::
  "(pystr \<Rightarrow> pyfloat) \<Rightarrow> (pyval \<Rightarrow> pystr) \<Rightarrow> (pyval \<Rightarrow> pystr) \<Rightarrow> pystr \<Rightarrow> pystr option" where
  "single_object_text pf fmt dumps raw_text =
     (case json_loads pf raw_text of
        Some (PDict parsed) \<Rightarrow>
          (case first_text fmt parsed [str ''text'', str ''response'', str ''output''] of
             Some t \<Rightarrow> Some t
           | None \<Rightarrow> Some (dumps (PDict parsed)))
      | _ \<Rightarrow> None)"

definition response_text ::
  "(pystr \<Rightarrow> pyfloat) \<Rightarrow> (pyval \<Rightarrow> pystr) \<Rightarrow> (pyval \<Rightarrow> pystr) \<Rightarrow> pystr \<Rightarrow>
   (error + pystr) option" where
  "response_text pf fmt dumps raw_text =
     (case single_object_text pf fmt dumps raw_text of
        Some t \<Rightarrow> Some (Inr t)
      | None \<Rightarrow>
          (case extract_json_objects_from_text pf raw_text of
             None \<Rightarrow> None
           | Some objs \<Rightarrow>
               if objs \<noteq> [] then
                 (case assemble_responses_from_objs objs of
                    Inl e \<Rightarrow> Some (Inl e)
                  | Inr assembled \<Rightarrow>
                      if assembled \<noteq> [] then Some (Inr assembled) else Some (Inr raw_text))
               else Some (Inr raw_text)))"

text \<open>The body of two objects written back to back.\<close>

definition two_objects_body :: pystr where
  \<open>two_objects_body = str ''{"response":"A "}{"response":"B"}''\<close>

section \<open>Querying the index (\<open>app/embed_index.py\<close>)\<close>

text \<open>\<open>xs[i]\<close> on a list: a negative index counts from the end; out of range raises.\<close>

definition py_index :: "'a list \<Rightarrow> int \<Rightarrow> error + 'a" where
  "py_index xs i =
     (if 0 \<le> i \<and> i < int (length xs) then Inr (xs ! nat i)
      else if i < 0 \<and> - int (length xs) \<le> i then Inr (xs ! nat (i + int (length xs)))
      else Inl IndexError)"

text \<open>
  What \<open>load_index\<close> reads: the search index and the metadata list. Of the index the
  model keeps what \<open>query_index\<close> uses, the answer \<open>(D[0], I[0])\<close> of \<open>index.search\<close> to the
  embedded query for each \<open>k\<close>. A distance is a float that is only compared; its type is
  left open.
\<close>

record 'd index_files =
  searcher :: "nat \<Rightarrow> 'd list \<times> int list"
  metadatas :: "pydict list"

definition no_index_message :: pystr where
  "no_index_message = str ''Index file not found. Run build first.''"

text \<open>The loop \<open>for rank, idx in enumerate(I[0])\<close>.\<close>

fun query_loop ::
  "pydict list \<Rightarrow> 'd list \<Rightarrow> (nat \<times> int) list \<Rightarrow> 'd result list \<Rightarrow> error + 'd result list" where
  "query_loop metas D0 [] results = Inr results"
| "query_loop metas D0 ((rnk, ix) # rest) results =
     (case py_index metas ix of
        Inl e \<Rightarrow> Inl e
      | Inr meta \<Rightarrow>
          if rnk < length D0
          then query_loop metas D0 rest
                 (results @ [\<lparr>rank = int rnk + 1, score = D0 ! rnk, metadata = meta\<rparr>])
          else Inl IndexError)"

definition query_index :: "'d index_files option \<Rightarrow> nat \<Rightarrow> error + 'd result list" where
  "query_index on_disk top_k =
     (case on_disk of
        None \<Rightarrow> Inl (RuntimeError no_index_message)
      | Some files \<Rightarrow>
          (let (D0, I0) = searcher files top_k
           in query_loop (metadatas files) D0 (enumerate 0 I0) []))"

text \<open>
  Modelled from the spec: the search routine of the index, which belongs to the vector
  search library and is not part of the sources. The specification describes an exact
  (brute-force) nearest-neighbour search whose results are ordered by ascending
  distance, padded when \<open>k\<close> exceeds the corpus size as the routine natively does.
  \<open>dists\<close> holds the distance of the query to the vector at each position; the padding
  is position \<open>-1\<close> with the distance \<open>far\<close>.
\<close>

definition flat_search :: "('d::linorder) list \<Rightarrow> 'd \<Rightarrow> nat \<Rightarrow> 'd list \<times> int list" where
  "flat_search dists far k =
     (let found = take k (sort_key (\<lambda>j. dists ! j) [0..<length dists]);
          pad = k - length found
      in (map (\<lambda>j. dists ! j) found @ replicate pad far,
          map int found @ replicate pad (- 1)))"

definition flat_index :: "('d::linorder) list \<Rightarrow> 'd \<Rightarrow> pydict list \<Rightarrow> 'd index_files" where
  "flat_index dists far metas = \<lparr>searcher = flat_search dists far, metadatas = metas\<rparr>"

text \<open>The entry that \<open>metadatas[idx]\<close> picks when it is in range.\<close>

definition picked :: "pydict list \<Rightarrow> int \<Rightarrow> pydict" where
  "picked metas ix = (if ix < 0 then last metas else metas ! nat ix)"


text \<open>A small index to run the model: three vectors, at distances 3, 1 and 2 of the query.\<close>

definition example_metas :: "pydict list" where
  "example_metas =
     [entry_of [(str ''doc_id'', PStr (str ''a''))] 0,
      entry_of [(str ''doc_id'', PStr (str ''a''))] 1,
      entry_of [(str ''doc_id'', PStr (str ''b''))] 0]"

definition example_index :: "int index_files" where
  "example_index = flat_index [3, 1, 2] 1000 example_metas"

section \<open>Ingestion (\<open>app/ingestion.py\<close>)\<close>

text \<open>
  \<open>open(path, "w")\<close> with \<open>json.dump\<close>: the file at \<open>path\<close> is created, or replaced when
  it exists. The file is kept as the document that reading it back gives.
\<close>

fun write_json :: "datadir \<Rightarrow> pystr \<Rightarrow> pyval \<Rightarrow> datadir" where
  "write_json [] path doc = [(path, Doc doc)]"
| "write_json ((q, f) # data_dir) path doc =
     (if q = path then (q, Doc doc) # data_dir else (q, f) # write_json data_dir path doc)"

text \<open>\<open>art.get("source", {}).get("name")\<close>: raises when the source is no dict.\<close>

definition source_name :: "pydict \<Rightarrow> error + pyval" where
  "source_name art =
     (case dict_get_default art (str ''source'') (PDict []) of
        PDict src \<Rightarrow> Inr (dict_get src (str ''name''))
      | _ \<Rightarrow> Inl AttributeError)"

definition record_file :: "pystr \<Rightarrow> pystr" where
  "record_file doc_id = str ''data/'' @ doc_id @ str ''.json''"

text \<open>
  One round of the loop of \<open>ingest_query\<close>, on the directory and the list of ingested
  records. \<open>doc_id_from_url\<close> (the SHA-1 of the URL, in hexadecimal) and
  \<open>extract_full_text\<close> (the scraper, which returns a dict in every case) are parameters.
  \<open>url.encode()\<close> and \<open>text.split()\<close> raise on a value that is no string. An exception
  leaves the directory as the rounds before it made it; the outer \<open>None\<close> is the chunker
  that never returns.
\<close>

definition ingest_article ::
  "(pystr \<Rightarrow> pystr) \<Rightarrow> (pystr \<Rightarrow> pydict) \<Rightarrow> pyval \<Rightarrow> datadir \<Rightarrow> pyval list \<Rightarrow>
   (datadir \<times> (error + pyval list)) option" where
  "ingest_article doc_id_from_url extract_full_text art data_dir ingested_docs =
     (case art of
        PDict a \<Rightarrow>
          (let link = dict_get a (str ''url'')
           in if \<not> truthy link then Some (data_dir, Inr ingested_docs)
              else case link of
                PStr u \<Rightarrow>
                  (let doc_id = doc_id_from_url u;
                       details = extract_full_text u;
                       full_text = py_or (py_or (dict_get details (str ''text''))
                                                (dict_get a (str ''content'')))
                                         (dict_get a (str ''description''))
                   in if \<not> truthy full_text then Some (data_dir, Inr ingested_docs)
                      else case full_text of
                        PStr t \<Rightarrow>
                          (case chunk_text t 350 50 of
                             None \<Rightarrow> None
                           | Some chunks \<Rightarrow>
                               (case source_name a of
                                  Inl e \<Rightarrow> Some (data_dir, Inl e)
                                | Inr src \<Rightarrow>
                                    (let doc_record = PDict
                                           [(str ''doc_id'', PStr doc_id),
                                            (str ''title'', py_or (dict_get details (str ''title''))
                                                                  (dict_get a (str ''title''))),
                                            (str ''url'', link),
                                            (str ''source'', src),
                                            (str ''publishedAt'', dict_get a (str ''publishedAt'')),
                                            (str ''chunks'', PList (map PStr chunks))]
                                     in Some (write_json data_dir (record_file doc_id) doc_record,
                                              Inr (ingested_docs @ [doc_record])))))
                      | _ \<Rightarrow> Some (data_dir, Inl AttributeError))
              | _ \<Rightarrow> Some (data_dir, Inl AttributeError))
      | _ \<Rightarrow> Some (data_dir, Inl AttributeError))"

fun ingest_loop ::
  "(pystr \<Rightarrow> pystr) \<Rightarrow> (pystr \<Rightarrow> pydict) \<Rightarrow> pyval list \<Rightarrow> datadir \<Rightarrow> pyval list \<Rightarrow>
   (datadir \<times> (error + pyval list)) option" where
  "ingest_loop doc_id_from_url extract_full_text [] data_dir ingested_docs =
     Some (data_dir, Inr ingested_docs)"
| "ingest_loop doc_id_from_url extract_full_text (art # articles) data_dir ingested_docs =
     (case ingest_article doc_id_from_url extract_full_text art data_dir ingested_docs of
        None \<Rightarrow> None
      | Some (data_dir', Inl e) \<Rightarrow> Some (data_dir', Inl e)
      | Some (data_dir', Inr docs) \<Rightarrow>
          ingest_loop doc_id_from_url extract_full_text articles data_dir' docs)"

text \<open>\<open>ingest_query\<close>, from the articles that \<open>fetch_news\<close> returned.\<close>

definition ingest_query ::
  "(pystr \<Rightarrow> pystr) \<Rightarrow> (pystr \<Rightarrow> pydict) \<Rightarrow> pyval list \<Rightarrow> datadir \<Rightarrow>
   (datadir \<times> (error + pyval list)) option" where
  "ingest_query doc_id_from_url extract_full_text articles data_dir =
     ingest_loop doc_id_from_url extract_full_text articles data_dir []"

text \<open>
  The record files a run can write: one for each article with a string as its URL. And
  the file of a record.
\<close>

definition article_files :: "(pystr \<Rightarrow> pystr) \<Rightarrow> pyval list \<Rightarrow> pystr list" where
  "article_files doc_id_from_url articles =
     concat (map (\<lambda>art. case art of
                          PDict a \<Rightarrow> (case dict_get a (str ''url'') of
                                        PStr u \<Rightarrow> [record_file (doc_id_from_url u)]
                                      | _ \<Rightarrow> [])
                        | _ \<Rightarrow> []) articles)"

definition file_of_record :: "pyval \<Rightarrow> pystr" where
  "file_of_record doc =
     (case doc of
        PDict d \<Rightarrow> (case dict_get d (str ''doc_id'') of PStr i \<Rightarrow> record_file i | _ \<Rightarrow> [])
      | _ \<Rightarrow> [])"

text \<open>
  Two fetches of the same URL with different content, a scraper that finds nothing,
  and a stand-in for the digest (the runs below do not depend on which function it is).
\<close>

definition first_fetch :: "pyval list" where
  "first_fetch = [PDict [(str ''url'', PStr (str ''u'')), (str ''content'', PStr (str ''old text''))]]"

definition second_fetch :: "pyval list" where
  "second_fetch = [PDict [(str ''url'', PStr (str ''u'')), (str ''content'', PStr (str ''new text''))]]"

definition no_scrape :: "pystr \<Rightarrow> pydict" where
  "no_scrape u = [(str ''title'', PNone), (str ''text'', PNone),
                  (str ''publish_date'', PNone), (str ''authors'', PList [])]"

definition digest_stand_in :: "pystr \<Rightarrow> pystr" where
  "digest_stand_in u = str ''id-'' @ u"

definition record_with :: "pystr list \<Rightarrow> pyval" where
  "record_with chunks =
     PDict [(str ''doc_id'', PStr (str ''id-u'')), (str ''title'', PNone),
            (str ''url'', PStr (str ''u'')), (str ''source'', PNone),
            (str ''publishedAt'', PNone), (str ''chunks'', PList (map PStr chunks))]"

section \<open>Building the index (\<open>app/embed_index.py\<close>)\<close>

text \<open>
  The array that \<open>model.encode(docs)\<close> returns: its shape and its rows, one vector for
  each text. The encoder belongs to the embedding library and is a parameter; a vector
  is only stored, so its type is left open. The three files that \<open>build_faiss_index\<close>
  writes are kept by what they hold: the vectors added to the index, the saved array,
  and the pickled metadata list.
\<close>

record 'v ndarray =
  arr_shape :: "int list"
  arr_rows :: "'v list"

record 'v index_artifacts =
  index_faiss :: "'v list"
  embeddings_npy :: "'v list"
  metadatas_pkl :: "pydict list"

text \<open>
  \<open>build_faiss_index\<close>: encode, read the dimension \<open>embs.shape[1]\<close>, add the rows to a new
  index and persist. There is no check of the number of texts.
\<close>

definition build_faiss_index ::
  "(pyval list \<Rightarrow> error + 'v ndarray) \<Rightarrow> pyval list \<Rightarrow> pydict list \<Rightarrow>
   error + 'v index_artifacts" where
  "build_faiss_index encode docs metas =
     (case encode docs of
        Inl e \<Rightarrow> Inl e
      | Inr embs \<Rightarrow>
          (case py_index (arr_shape embs) 1 of
             Inl e \<Rightarrow> Inl e
           | Inr d \<Rightarrow>
               Inr \<lparr>index_faiss = arr_rows embs, embeddings_npy = arr_rows embs,
                    metadatas_pkl = metas\<rparr>))"

text \<open>The build path of the module: \<open>collect_docs()\<close>, then \<open>build_faiss_index\<close>.\<close>

definition build_index ::
  "(pyval list \<Rightarrow> error + 'v ndarray) \<Rightarrow> datadir \<Rightarrow> error + 'v index_artifacts" where
  "build_index encode data_dir =
     (case collect_docs data_dir of
        Inl e \<Rightarrow> Inl e
      | Inr (docs, metas) \<Rightarrow> build_faiss_index encode docs metas)"

text \<open>
  Two encoders to run the build on: one returns an array of shape \<open>(n, 384)\<close> for \<open>n\<close>
  texts, the other an array of shape \<open>(0,)\<close> when there is no text.
\<close>

definition encoder_2d :: "pyval list \<Rightarrow> error + pyval ndarray" where
  "encoder_2d docs = Inr \<lparr>arr_shape = [int (length docs), 384], arr_rows = docs\<rparr>"

definition encoder_1d :: "pyval list \<Rightarrow> error + pyval ndarray" where
  "encoder_1d docs =
     Inr \<lparr>arr_shape = (if docs = [] then [0] else [int (length docs), 384]), arr_rows = docs\<rparr>"

text \<open>An article whose text is blank.\<close>

definition blank_fetch :: "pyval list" where
  "blank_fetch = [PDict [(str ''url'', PStr (str ''u'')), (str ''content'', PStr (str ''   ''))]]"

definition blank_corpus :: datadir where
  "blank_corpus = [(str ''data/id-u.json'', Doc (record_with []))]"

section \<open>Evidence assembly over a store of objects (\<open>app/rag.py\<close>)\<close>

















section \<open>Runs of ingestion\<close>

text \<open>
  The record that ingestion builds for the URL \<open>u\<close> of the two fetches, for any digest
  function, and a directory that earlier runs left: the record of \<open>u\<close> and one of
  another article.
\<close>

definition record_for :: "(pystr \<Rightarrow> pystr) \<Rightarrow> pystr list \<Rightarrow> pyval" where
  "record_for doc_id_from_url chunks =
     PDict [(str ''doc_id'', PStr (doc_id_from_url (str ''u''))), (str ''title'', PNone),
            (str ''url'', PStr (str ''u'')), (str ''source'', PNone),
            (str ''publishedAt'', PNone), (str ''chunks'', PList (map PStr chunks))]"

definition earlier_runs :: datadir where
  "earlier_runs =
     [(str ''data/id-u.json'', Doc (record_with [str ''old text''])),
      (str ''data/id-v.json'', Doc (PDict [(str ''doc_id'', PStr (str ''id-v'')),
                                           (str ''chunks'', PList [PStr (str ''other'')])]))]"

section \<open>Facts about splitting and joining\<close>

lemma str_space [simp]: "str '' '' = [32]"
  by (simp add: str_def)

lemma is_space_32 [simp]: "is_space 32"
  by (simp add: is_space_def)

lemma split_from_words:
  "(\<forall>c \<in> set w. \<not> is_space c) \<Longrightarrow> v \<in> set (split_from w s) \<Longrightarrow> is_word v"
proof (induction w s rule: split_from.induct)
  case (1 w)
  then show ?case by (simp add: is_word_def split: if_splits)
next
  case (2 w c cs)
  show ?case
  proof (cases "is_space c")
    case True
    note sp = this
    show ?thesis
    proof (cases "w = []")
      case True
      with sp 2 show ?thesis by simp
    next
      case False
      with sp "2.prems" have "v = w \<or> v \<in> set (split_from [] cs)" by simp
      then show ?thesis
      proof
        assume "v = w"
        with False "2.prems"(1) show ?thesis by (simp add: is_word_def)
      next
        assume "v \<in> set (split_from [] cs)"
        with sp False "2.IH"(2) show ?thesis by simp
      qed
    qed
  next
    case False
    with "2.prems" have "v \<in> set (split_from (w @ [c]) cs)" by simp
    moreover have "\<forall>c' \<in> set (w @ [c]). \<not> is_space c'"
      using False "2.prems"(1) by simp
    ultimately show ?thesis using False "2.IH"(3) by blast
  qed
qed

lemma py_split_words: "v \<in> set (py_split s) \<Longrightarrow> is_word v"
  unfolding py_split_def using split_from_words [of "[]" v s] by simp

lemma split_from_nospace:
  "\<forall>c \<in> set u. \<not> is_space c \<Longrightarrow> split_from w (u @ s) = split_from (w @ u) s"
proof (induction u arbitrary: w)
  case Nil
  show ?case by simp
next
  case (Cons a u)
  then have "split_from (w @ [a]) (u @ s) = split_from ((w @ [a]) @ u) s"
    by simp
  with Cons.prems show ?case by simp
qed

lemma split_word_then:
  "is_word w \<Longrightarrow> split_from [] (w @ 32 # s) = w # split_from [] s"
  using split_from_nospace [of w "[]" "32 # s"] by (simp add: is_word_def)

lemma split_word_end: "is_word w \<Longrightarrow> split_from [] w = [w]"
  using split_from_nospace [of w "[]" "[]"] by (simp add: is_word_def)

lemma split_join:
  "\<forall>v \<in> set ws. is_word v \<Longrightarrow> py_split (py_join [32] ws) = ws"
proof (induction ws rule: induct_list012)
  case 1
  show ?case by (simp add: py_split_def)
next
  case (2 w)
  then show ?case by (simp add: py_split_def split_word_end)
next
  case (3 w v ws)
  then have "py_split (py_join [32] (v # ws)) = v # ws" and "is_word w"
    by simp_all
  then show ?case by (simp add: py_split_def split_word_then)
qed

section \<open>The chunker's loop against the windows\<close>

lemma py_slice_window:
  "0 \<le> i \<Longrightarrow> 0 \<le> c \<Longrightarrow> py_slice xs i (i + c) = take (nat c) (drop (nat i) xs)"
  by (auto simp: py_slice_def slice_bound_def Let_def)

lemma chunk_loop_windows:
  "0 < step \<Longrightarrow>
   chunk_loop ws (int ov + int step) (int ov) (int i) acc =
   Some (acc @ map (py_join [32]) (windows_from ws (ov + step) step i))"
proof (induction "length ws - i" arbitrary: i acc rule: less_induct)
  case less
  show ?case
  proof (cases "i < length ws")
    case True
    have sl: "py_slice ws (int i) (int i + (int ov + int step)) = take (ov + step) (drop i ws)"
      using py_slice_window [of "int i" "int ov + int step" ws] by (simp add: nat_add_distrib)
    have "length ws - (i + step) < length ws - i"
      using True less.prems by simp
    then have IH: "chunk_loop ws (int ov + int step) (int ov) (int (i + step)) acc' =
        Some (acc' @ map (py_join [32]) (windows_from ws (ov + step) step (i + step)))" for acc'
      using less.hyps less.prems by blast
    have "chunk_loop ws (int ov + int step) (int ov) (int i) acc =
          chunk_loop ws (int ov + int step) (int ov) (int (i + step))
            (acc @ [py_join [32] (take (ov + step) (drop i ws))])"
      using True sl by (subst chunk_loop.simps) (simp add: add.commute)
    also have "\<dots> = Some ((acc @ [py_join [32] (take (ov + step) (drop i ws))]) @
                  map (py_join [32]) (windows_from ws (ov + step) step (i + step)))"
      by (rule IH)
    finally show ?thesis
      using True less.prems by (subst windows_from.simps) simp
  next
    case False
    then show ?thesis
      by (subst chunk_loop.simps, subst windows_from.simps) simp
  qed
qed

lemma windows_from_step:
  "i < length ws \<Longrightarrow> 0 < step \<Longrightarrow>
   windows_from ws width step i = take width (drop i ws) # windows_from ws width step (i + step)"
  by (subst windows_from.simps) simp

lemma windows_from_done:
  "\<not> (i < length ws \<and> 0 < step) \<Longrightarrow> windows_from ws width step i = []"
  by (subst windows_from.simps) simp

lemma windows_from_words:
  "\<forall>v \<in> set ws. P v \<Longrightarrow> c \<in> set (windows_from ws width step i) \<Longrightarrow> \<forall>v \<in> set c. P v"
proof (induction "length ws - i" arbitrary: i rule: less_induct)
  case less
  show ?case
  proof (cases "i < length ws \<and> 0 < step")
    case True
    then have "c = take width (drop i ws) \<or> c \<in> set (windows_from ws width step (i + step))"
      using less.prems(2) by (simp add: windows_from_step)
    then show ?thesis
    proof
      assume "c = take width (drop i ws)"
      then show ?thesis using less.prems(1) by (auto dest: in_set_takeD in_set_dropD)
    next
      assume "c \<in> set (windows_from ws width step (i + step))"
      moreover have "length ws - (i + step) < length ws - i" using True by linarith
      ultimately show ?thesis using less.hyps less.prems(1) by blast
    qed
  next
    case False
    then show ?thesis using less.prems(2) by (simp add: windows_from_done)
  qed
qed

lemma overlap_piece:
  assumes "ov \<le> width"
  shows "drop ov (take width (drop i ws)) @ drop (i + width) ws = drop (i + ov) ws"
proof -
  have "drop ov (take width (drop i ws)) = take (width - ov) (drop (i + ov) ws)"
    by (simp add: drop_take add.commute)
  moreover have "drop (i + width) ws = drop (width - ov) (drop (i + ov) ws)"
    using assms by (simp add: add.commute)
  ultimately show ?thesis by (simp only: append_take_drop_id)
qed

lemma windows_from_tail:
  "0 < step \<Longrightarrow> concat (map (drop ov) (windows_from ws (ov + step) step i)) = drop (i + ov) ws"
proof (induction "length ws - i" arbitrary: i rule: less_induct)
  case less
  show ?case
  proof (cases "i < length ws")
    case True
    then have "length ws - (i + step) < length ws - i" using less.prems by simp
    then have "concat (map (drop ov) (windows_from ws (ov + step) step (i + step))) =
               drop (i + step + ov) ws"
      using less.hyps less.prems by blast
    then have "concat (map (drop ov) (windows_from ws (ov + step) step i)) =
               drop ov (take (ov + step) (drop i ws)) @ drop (i + (ov + step)) ws"
      using True less.prems by (simp add: windows_from_step ac_simps)
    also have "\<dots> = drop (i + ov) ws"
      by (rule overlap_piece) simp
    finally show ?thesis .
  next
    case False
    then show ?thesis by (simp add: windows_from_done)
  qed
qed

lemma windows_from_reconstruct:
  assumes "0 < step"
  shows "remove_overlaps ov (windows_from ws (ov + step) step 0) = ws"
proof (cases ws)
  case Nil
  then show ?thesis by (simp add: windows_from_done remove_overlaps_def)
next
  case (Cons a as)
  then have "remove_overlaps ov (windows_from ws (ov + step) step 0) =
        take (ov + step) ws @ concat (map (drop ov) (windows_from ws (ov + step) step step))"
    using assms by (simp add: windows_from_step remove_overlaps_def)
  also have "\<dots> = take (ov + step) ws @ drop (step + ov) ws"
    using windows_from_tail [OF assms, of ov ws step] by simp
  finally show ?thesis by (simp add: add.commute)
qed

lemma windows_from_nth:
  "0 < step \<Longrightarrow> k < length (windows_from ws width step i) \<Longrightarrow>
   windows_from ws width step i ! k = take width (drop (i + k * step) ws)"
proof (induction k arbitrary: i)
  case 0
  then have "i < length ws" by (cases "i < length ws") (simp_all add: windows_from_done)
  with 0 show ?case by (simp add: windows_from_step)
next
  case (Suc k)
  then have lt: "i < length ws" by (cases "i < length ws") (simp_all add: windows_from_done)
  with Suc.prems have "k < length (windows_from ws width step (i + step))"
    by (simp add: windows_from_step)
  with Suc.IH Suc.prems(1) have
    "windows_from ws width step (i + step) ! k = take width (drop (i + step + k * step) ws)"
    by blast
  with lt Suc.prems(1) show ?case by (simp add: windows_from_step ac_simps)
qed

lemma chunk_loop_diverges:
  assumes "chunk_loop ws cs ov i acc = Some r"
  shows "\<not> (cs \<le> ov \<and> i < int (length ws))"
proof (rule chunk_loop.raw_induct
    [where P = "\<lambda>ws cs ov i acc r. \<not> (cs \<le> ov \<and> i < int (length ws))", OF _ assms])
  fix loop :: "pystr list \<Rightarrow> int \<Rightarrow> int \<Rightarrow> int \<Rightarrow> pystr list \<Rightarrow> pystr list option"
  fix ws cs ov i acc r
  assume IH: "\<And>cs ov i acc ws r. loop cs ov i acc ws = Some r \<Longrightarrow>
                \<not> (ov \<le> i \<and> acc < int (length cs))"
  assume body: "(if i < int (length ws)
      then loop ws cs ov (i + (cs - ov)) (acc @ [py_join (str '' '') (py_slice ws i (i + cs))])
      else Some acc) = Some r"
  show "\<not> (cs \<le> ov \<and> i < int (length ws))"
  proof (cases "i < int (length ws)")
    case True
    with body IH have "\<not> (cs \<le> ov \<and> i + (cs - ov) < int (length ws))" by simp
    with True show ?thesis by auto
  next
    case False
    then show ?thesis by simp
  qed
qed

lemma chunk_loop_never_returns:
  "cs \<le> ov \<Longrightarrow> i < int (length ws) \<Longrightarrow> chunk_loop ws cs ov i acc = None"
  using chunk_loop_diverges [of ws cs ov i acc] by (cases "chunk_loop ws cs ov i acc") auto

lemma py_split_a: "py_split (str ''a'') = [str ''a'']"
  by (simp add: py_split_def str_def is_space_def)

text \<open>
  C1. The specification asks that a configuration with overlap \<ge> window size is turned
  down as a configuration error, so that \<open>chunk_text\<close> returns on every input. The loop
  of \<open>chunk_text\<close> has no such guard: on the one-word text \<open>a\<close> with window size 1 and
  overlap 1 (the index never moves) or overlap 2 (the index moves backwards) the call never
  returns, and no error is raised.
\<close>

theorem chunk_text_overlap_not_guarded:
  "chunk_text (str ''a'') 1 1 = None \<and> chunk_text (str ''a'') 1 2 = None"
  by (simp add: chunk_text_def py_split_a chunk_loop_never_returns)

text \<open>
  C2. For every text and every pair with \<open>0 \<le> overlap < chunk_size\<close>, \<open>chunk_text\<close>
  returns a list of chunks; the words of chunk \<open>k\<close> are the (at most) \<open>chunk_size\<close> words
  of the text that start at word \<open>k * (chunk_size - overlap)\<close>, so each chunk starts
  \<open>chunk_size - overlap\<close> words after the one before; and the words of the first chunk
  followed by the words of every later chunk without its first \<open>overlap\<close> words are the
  words of the text, in order.
\<close>

theorem chunk_text_reconstructs:
  assumes "0 \<le> overlap" and "overlap < chunk_size"
  shows "\<exists>chunks. chunk_text text chunk_size overlap = Some chunks \<and>
     map py_split chunks =
       windows_from (py_split text) (nat chunk_size) (nat (chunk_size - overlap)) 0 \<and>
     (\<forall>k < length chunks. py_split (chunks ! k) =
        take (nat chunk_size) (drop (k * nat (chunk_size - overlap)) (py_split text))) \<and>
     remove_overlaps (nat overlap) (map py_split chunks) = py_split text"
proof -
  define ov step ws where "ov = nat overlap" and "step = nat (chunk_size - overlap)"
    and "ws = py_split text"
  define wins where "wins = windows_from ws (ov + step) step 0"
  have step: "0 < step" and cs: "chunk_size = int ov + int step" and ovl: "overlap = int ov"
    and w: "nat chunk_size = ov + step"
    using assms by (simp_all add: ov_def step_def)
  have run: "chunk_text text chunk_size overlap = Some (map (py_join [32]) wins)"
    using chunk_loop_windows [OF step, of ws ov 0 "[]"]
    by (simp add: chunk_text_def cs ovl ws_def wins_def)
  have words: "\<forall>c \<in> set wins. \<forall>v \<in> set c. is_word v"
    using windows_from_words [of ws is_word _ "ov + step" step 0]
    by (auto simp: wins_def ws_def py_split_words)
  then have rt: "map py_split (map (py_join [32]) wins) = wins"
    by (simp add: map_idI split_join)
  have nth: "\<forall>k < length wins. wins ! k = take (ov + step) (drop (k * step) ws)"
    using windows_from_nth [OF step, of _ ws "ov + step" 0] by (simp add: wins_def)
  have whole: "remove_overlaps ov wins = ws"
    unfolding wins_def by (rule windows_from_reconstruct [OF step])
  have "\<forall>k < length wins. py_split (map (py_join [32]) wins ! k) =
          take (ov + step) (drop (k * step) ws)"
  proof (intro allI impI)
    fix k assume k: "k < length wins"
    then have "\<forall>v \<in> set (wins ! k). is_word v"
      using words nth_mem by blast
    then have "py_split (py_join [32] (wins ! k)) = wins ! k"
      by (rule split_join)
    with k nth show "py_split (map (py_join [32]) wins ! k) =
        take (ov + step) (drop (k * step) ws)"
      by simp
  qed
  with run rt whole show ?thesis
    by (simp add: w wins_def ws_def [symmetric] ov_def [symmetric] step_def [symmetric])
qed

theorem chunk_text_reconstructs_witness:
  "(0::int) \<le> 1 \<and> (1::int) < 2 \<and>
   (\<exists>chunks. chunk_text (str ''a b c'') 2 1 = Some chunks \<and>
     map py_split chunks = windows_from (py_split (str ''a b c'')) (nat 2) (nat (2 - 1)) 0 \<and>
     (\<forall>k < length chunks. py_split (chunks ! k) =
        take (nat 2) (drop (k * nat (2 - 1)) (py_split (str ''a b c'')))) \<and>
     remove_overlaps (nat 1) (map py_split chunks) = py_split (str ''a b c''))"
  using chunk_text_reconstructs [of 1 2 "str ''a b c''"] by simp

section \<open>Facts about the corpus\<close>

lemma str_eq_iff [simp]: "str a = str b \<longleftrightarrow> a = b"
proof -
  have "inj (of_char :: char \<Rightarrow> nat)"
    by (rule injI) simp
  then show ?thesis
    by (simp add: str_def inj_map_eq_map)
qed

lemma collect_chunks_eq:
  "collect_chunks entry es (docs, metas) =
   (docs @ map snd es, metas @ map (\<lambda>e. entry (fst e)) es)"
  by (induction es arbitrary: docs metas) auto

lemma record_entries_article:
  "dict_get_default rec (str ''chunks'') (PList []) = PList cs \<Longrightarrow>
   record_entries (Doc (PDict rec)) = map (\<lambda>e. (snd e, entry_of rec (fst e))) (enumerate 0 cs)"
  by (simp add: record_entries_def chunks_of_def case_prod_unfold)

lemma collect_files_articles:
  "\<forall>p \<in> set paths. is_article (read_json data_dir p) \<Longrightarrow>
   collect_files data_dir paths (docs, metas) =
   Inr (docs @ map fst (concat (map (\<lambda>p. record_entries (read_json data_dir p)) paths)),
        metas @ map snd (concat (map (\<lambda>p. record_entries (read_json data_dir p)) paths)))"
proof (induction paths arbitrary: docs metas)
  case Nil
  show ?case by simp
next
  case (Cons p paths)
  from Cons.prems obtain rec cs where
    f: "read_json data_dir p = Doc (PDict rec)" and
    c: "dict_get_default rec (str ''chunks'') (PList []) = PList cs"
    by (auto simp: is_article_def split: json_file.splits pyval.splits)
  have e: "record_entries (read_json data_dir p) =
           map (\<lambda>e. (snd e, entry_of rec (fst e))) (enumerate 0 cs)"
    using c by (simp add: f record_entries_article)
  have "collect_files data_dir (p # paths) (docs, metas) =
        collect_files data_dir paths
          (docs @ map snd (enumerate 0 cs),
           metas @ map (\<lambda>e. entry_of rec (fst e)) (enumerate 0 cs))"
    by (simp add: f c collect_chunks_eq entry_of_def)
  also have "\<dots> = Inr ((docs @ map snd (enumerate 0 cs)) @
        map fst (concat (map (\<lambda>p. record_entries (read_json data_dir p)) paths)),
      (metas @ map (\<lambda>e. entry_of rec (fst e)) (enumerate 0 cs)) @
        map snd (concat (map (\<lambda>p. record_entries (read_json data_dir p)) paths)))"
    using Cons.prems by (intro Cons.IH) simp
  finally show ?case by (simp add: e comp_def)
qed

lemma read_json_listed:
  "p \<in> fst ` set data_dir \<Longrightarrow> \<exists>f. map_of data_dir p = Some f \<and> read_json data_dir p = f \<and> (p, f) \<in> set data_dir"
proof -
  assume "p \<in> fst ` set data_dir"
  then obtain f where "map_of data_dir p = Some f"
    by (cases "map_of data_dir p") (auto simp: map_of_eq_None_iff)
  then show ?thesis by (auto simp: read_json_def dest: map_of_SomeD)
qed

lemma entry_of_chunk_index: "dict_get (entry_of rec i) (str ''chunk_index'') = PInt (int i)"
  by (simp add: entry_of_def metadata_entry_def dict_get_def)

lemma entry_of_doc_id:
  "dict_get (entry_of rec i) (str ''doc_id'') = dict_get rec (str ''doc_id'')"
  by (simp add: entry_of_def metadata_entry_def dict_get_def)

lemma record_entries_nth:
  assumes "e \<in> set (record_entries f)"
  shows "\<exists>rec i. f = Doc (PDict rec) \<and> i < length (chunks_of rec) \<and>
                  e = (chunks_of rec ! i, entry_of rec i)"
proof -
  from assms obtain rec where f: "f = Doc (PDict rec)"
    by (auto simp: record_entries_def split: json_file.splits pyval.splits)
  with assms obtain k where k: "k < length (chunks_of rec)"
    and e: "e = map (\<lambda>(i, chunk). (chunk, entry_of rec i)) (enumerate 0 (chunks_of rec)) ! k"
    by (auto simp: record_entries_def in_set_conv_nth)
  from k e have "e = (chunks_of rec ! k, entry_of rec k)"
    by (simp add: nth_enumerate_eq)
  with f k show ?thesis by blast
qed

text \<open>
  C3. For every corpus with at least one file, all of them article records,
  \<open>collect_docs\<close> returns two lists of the same length; paired position by position they
  are the chunks of the corpus with their metadata entries, in the order of the sorted
  paths and, within a file, of its chunk list; and the entry at position \<open>j\<close> carries
  the identifier of the record that holds \<open>docs[j]\<close> and, as \<open>chunk_index\<close>, the position
  of \<open>docs[j]\<close> in that record's chunk list.
\<close>

theorem collect_docs_aligned:
  assumes "data_dir \<noteq> []" and "\<forall>pf \<in> set data_dir. is_article (snd pf)"
  shows "\<exists>docs metadatas.
     collect_docs data_dir = Inr (docs, metadatas) \<and>
     length docs = length metadatas \<and>
     zip docs metadatas = corpus_entries data_dir \<and>
     (\<forall>j < length docs. \<exists>p rec i.
        p \<in> set (sort (map fst data_dir)) \<and>
        read_json data_dir p = Doc (PDict rec) \<and>
        i < length (chunks_of rec) \<and>
        docs ! j = chunks_of rec ! i \<and>
        dict_get (metadatas ! j) (str ''chunk_index'') = PInt (int i) \<and>
        dict_get (metadatas ! j) (str ''doc_id'') = dict_get rec (str ''doc_id''))"
proof -
  define paths where "paths = sort (map fst data_dir)"
  define es where "es = corpus_entries data_dir"
  have "length paths = length data_dir"
    by (simp add: paths_def)
  with assms(1) have ne: "paths \<noteq> []"
    by auto
  have art: "\<forall>p \<in> set paths. is_article (read_json data_dir p)"
  proof
    fix p assume "p \<in> set paths"
    then have "p \<in> fst ` set data_dir" by (simp add: paths_def)
    then obtain f where "read_json data_dir p = f" "(p, f) \<in> set data_dir"
      using read_json_listed by blast
    with assms(2) show "is_article (read_json data_dir p)" by auto
  qed
  have run: "collect_docs data_dir = Inr (map fst es, map snd es)"
    using ne collect_files_articles [OF art, of "[]" "[]"]
    by (simp add: collect_docs_def paths_def [symmetric] es_def corpus_entries_def)
  have pos: "\<exists>p rec i. p \<in> set paths \<and> read_json data_dir p = Doc (PDict rec) \<and>
        i < length (chunks_of rec) \<and> map fst es ! j = chunks_of rec ! i \<and>
        dict_get (map snd es ! j) (str ''chunk_index'') = PInt (int i) \<and>
        dict_get (map snd es ! j) (str ''doc_id'') = dict_get rec (str ''doc_id'')"
    if j: "j < length es" for j
  proof -
    from j have "es ! j \<in> set es" by simp
    then obtain p where p: "p \<in> set paths"
      and e: "es ! j \<in> set (record_entries (read_json data_dir p))"
      by (auto simp: es_def corpus_entries_def paths_def)
    from record_entries_nth [OF e] obtain rec i where
      "read_json data_dir p = Doc (PDict rec)" "i < length (chunks_of rec)"
      "es ! j = (chunks_of rec ! i, entry_of rec i)"
      by blast
    with p j show ?thesis
      by (auto simp: entry_of_chunk_index entry_of_doc_id)
  qed
  show ?thesis
    using run pos
    by (simp add: zip_map_fst_snd paths_def [symmetric] es_def [symmetric])
qed

lemma example_corpus_sorted:
  "sort (map fst example_corpus) = [str ''data/a.json'', str ''data/b.json'']"
  by (simp add: example_corpus_def str_def)

lemma collect_docs_example:
  "collect_docs example_corpus =
     Inr ([PStr (str ''x''), PStr (str ''y''), PStr (str ''z'')],
          [entry_of [(str ''doc_id'', PStr (str ''a''))] 0,
           entry_of [(str ''doc_id'', PStr (str ''a''))] 1,
           entry_of [(str ''doc_id'', PStr (str ''b''))] 0])"
  unfolding collect_docs_def example_corpus_sorted
  by (simp add: example_corpus_def read_json_def dict_get_def dict_get_default_def
      entry_of_def enumerate_eq_zip upt_rec Let_def)

theorem collect_docs_aligned_witness:
  "example_corpus \<noteq> [] \<and> list_all (\<lambda>pf. is_article (snd pf)) example_corpus \<and>
   (\<exists>docs metadatas.
     collect_docs example_corpus = Inr (docs, metadatas) \<and>
     length docs = length metadatas \<and>
     zip docs metadatas = corpus_entries example_corpus \<and>
     (\<forall>j < length docs. \<exists>p rec i.
        p \<in> set (sort (map fst example_corpus)) \<and>
        read_json example_corpus p = Doc (PDict rec) \<and>
        i < length (chunks_of rec) \<and>
        docs ! j = chunks_of rec ! i \<and>
        dict_get (metadatas ! j) (str ''chunk_index'') = PInt (int i) \<and>
        dict_get (metadatas ! j) (str ''doc_id'') = dict_get rec (str ''doc_id'')))"
proof -
  have h1: "example_corpus \<noteq> []"
    by (simp add: example_corpus_def)
  have h2: "\<forall>pf \<in> set example_corpus. is_article (snd pf)"
    by (simp add: example_corpus_def is_article_def dict_get_default_def)
  from collect_docs_aligned [OF h1 h2] h1 h2 show ?thesis
    by (simp add: list_all_iff)
qed

lemma collect_files_no_runtime_error:
  "collect_files data_dir paths acc \<noteq> Inl (RuntimeError m)"
proof (induction paths arbitrary: acc)
  case Nil
  show ?case by simp
next
  case (Cons p paths)
  have it: "py_iter v \<noteq> Inl (RuntimeError m)" for v
    by (cases v) simp_all
  show ?case
  proof (cases "read_json data_dir p")
    case Unreadable
    then show ?thesis by simp
  next
    case (Doc v)
    show ?thesis
    proof (cases v)
      case (PDict rec)
      show ?thesis
      proof (cases "py_iter (dict_get_default rec (str ''chunks'') (PList []))")
        case (Inl e)
        with it [of "dict_get_default rec (str ''chunks'') (PList [])"] Doc PDict
        show ?thesis by simp
      next
        case (Inr cs)
        with Doc PDict Cons.IH show ?thesis by simp
      qed
    qed (simp_all add: Doc)
  qed
qed

text \<open>
  On a corpus of one record whose chunk list is empty \<open>collect_docs\<close> returns two
  empty lists.
\<close>

lemma collect_docs_chunkless_returns: "collect_docs chunkless_corpus = Inr ([], [])"
  by (simp add: collect_docs_def chunkless_corpus_def read_json_def dict_get_def
      dict_get_default_def)

text \<open>
  \<open>collect_docs\<close> raises the error \<open>No json files found in data. Run ingestion first.\<close>
  exactly when \<open>data/\<close> holds no \<open>*.json\<close> file.
\<close>

lemma collect_docs_no_files_iff:
  "collect_docs data_dir = Inl (RuntimeError no_files_message) \<longleftrightarrow> data_dir = []"
proof
  assume r: "collect_docs data_dir = Inl (RuntimeError no_files_message)"
  show "data_dir = []"
  proof (rule ccontr)
    assume "data_dir \<noteq> []"
    moreover have "length (sort (map fst data_dir)) = length data_dir" by simp
    ultimately have "sort (map fst data_dir) \<noteq> []" by (metis length_0_conv)
    with r collect_files_no_runtime_error show False
      by (simp add: collect_docs_def)
  qed
next
  assume "data_dir = []"
  then show "collect_docs data_dir = Inl (RuntimeError no_files_message)"
    by (simp add: collect_docs_def)
qed

section \<open>Facts about dicts and the data map\<close>

lemma key_eq_iff: "key_eq a b \<longleftrightarrow> (\<exists>k. key_of a = Some k \<and> key_of b = Some k)"
  by (simp add: key_eq_def split: option.splits)

lemma key_eq_sym: "key_eq a b \<Longrightarrow> key_eq b a"
  by (auto simp: key_eq_iff)

lemma key_eq_trans: "key_eq a b \<Longrightarrow> key_eq b c \<Longrightarrow> key_eq a c"
  by (auto simp: key_eq_iff)

lemma map_of_dict_set: "map_of (dict_set d k v) = (map_of d)(k \<mapsto> v)"
  by (induction d) (auto simp: fun_eq_iff)

lemma dict_get_dict_set:
  "dict_get (dict_set d k v) k' = (if k' = k then v else dict_get d k')"
  by (simp add: dict_get_def map_of_dict_set)

lemma map_set_entries:
  "(k0, r) \<in> set (map_set m k v) \<Longrightarrow>
   (k0, r) \<in> set m \<or> (r = v \<and> (k0 = k \<or> key_eq k0 k))"
  by (induction m) (auto split: if_splits)

lemma map_get_entry:
  "map_get m k = Some r \<Longrightarrow> \<exists>k0. (k0, r) \<in> set m \<and> key_eq k0 k"
  by (induction m) (auto split: if_splits)

lemma load_data_map_entries:
  "(k, rec) \<in> set (load_data_map data_dir paths data_map) \<Longrightarrow>
   (k, rec) \<in> set data_map \<or>
   (\<exists>p \<in> set paths. read_json data_dir p = Doc (PDict rec) \<and>
      (k = dict_get rec (str ''doc_id'') \<or> key_eq k (dict_get rec (str ''doc_id''))))"
proof (induction paths arbitrary: data_map)
  case Nil
  then show ?case by simp
next
  case (Cons p paths)
  show ?case
  proof (cases "\<exists>r. read_json data_dir p = Doc (PDict r) \<and> hashable (dict_get r (str ''doc_id''))")
    case True
    then obtain r where r: "read_json data_dir p = Doc (PDict r)"
      and h: "hashable (dict_get r (str ''doc_id''))" by blast
    with Cons.prems have
      "(k, rec) \<in> set (load_data_map data_dir paths (map_set data_map (dict_get r (str ''doc_id'')) r))"
      by simp
    from Cons.IH [OF this] show ?thesis
    proof
      assume "(k, rec) \<in> set (map_set data_map (dict_get r (str ''doc_id'')) r)"
      from map_set_entries [OF this] r show ?thesis by auto
    next
      assume "\<exists>p \<in> set paths. read_json data_dir p = Doc (PDict rec) \<and>
        (k = dict_get rec (str ''doc_id'') \<or> key_eq k (dict_get rec (str ''doc_id'')))"
      then show ?thesis by auto
    qed
  next
    case False
    then have "load_data_map data_dir (p # paths) data_map = load_data_map data_dir paths data_map"
      by (auto split: json_file.splits pyval.splits)
    with Cons.prems Cons.IH [of data_map] show ?thesis by auto
  qed
qed

lemma data_map_lookup:
  assumes "map_get (load_data_map data_dir paths []) k = Some rec"
  shows "\<exists>p \<in> set paths. read_json data_dir p = Doc (PDict rec) \<and>
           key_eq (dict_get rec (str ''doc_id'')) k"
proof -
  from map_get_entry [OF assms] obtain k0 where
    e: "(k0, rec) \<in> set (load_data_map data_dir paths [])" and k0: "key_eq k0 k"
    by blast
  from load_data_map_entries [OF e] obtain p where p: "p \<in> set paths"
    and r: "read_json data_dir p = Doc (PDict rec)"
    and c: "k0 = dict_get rec (str ''doc_id'') \<or> key_eq k0 (dict_get rec (str ''doc_id''))"
    by auto
  from c k0 have "key_eq (dict_get rec (str ''doc_id'')) k"
    by (auto intro: key_eq_trans key_eq_sym)
  with p r show ?thesis by blast
qed

lemma lookup_chunk_cases:
  assumes "lookup_chunk data_map doc_id chunk_i = Inr v"
  shows "v = PNone \<or>
    (\<exists>rec n. map_get data_map doc_id = Some rec \<and> as_int chunk_i = Some n \<and> 0 \<le> n \<and>
       py_getitem (dict_get_default rec (str ''chunks'') (PList [])) (nat n) = Inr v)"
  using assms
  by (auto simp: lookup_chunk_def Let_def split: if_splits option.splits sum.splits)

lemma lookup_chunk_listed:
  assumes "hashable doc_id"
    and "\<And>rec. map_get data_map doc_id = Some rec \<Longrightarrow>
           \<exists>cs. dict_get_default rec (str ''chunks'') (PList []) = PList cs"
  shows "\<exists>v. lookup_chunk data_map doc_id chunk_i = Inr v"
proof (cases "map_get data_map doc_id")
  case None
  with assms(1) show ?thesis by (simp add: lookup_chunk_def)
next
  case (Some rec)
  with assms(2) obtain cs where "dict_get_default rec (str ''chunks'') (PList []) = PList cs"
    by blast
  with Some assms(1) show ?thesis
    by (auto simp: lookup_chunk_def Let_def split: option.splits)
qed

lemma enrich_all_iff:
  "enrich_all data_map items acc = Inr res \<longleftrightarrow>
   (\<exists>out. res = acc @ out \<and>
      list_all2 (\<lambda>item item'. enrich_item data_map item = Inr item') items out)"
proof (induction items arbitrary: acc)
  case Nil
  show ?case by auto
next
  case (Cons item items)
  show ?case
  proof (cases "enrich_item data_map item")
    case (Inl e)
    then show ?thesis by (simp add: list_all2_Cons1)
  next
    case (Inr item')
    then show ?thesis
      by (simp add: Cons.IH list_all2_Cons1) (metis append.assoc append_Cons append_Nil)
  qed
qed

section \<open>Facts about evidence assembly\<close>

lemma enrich_item_frame:
  assumes "enrich_item data_map item = Inr item'"
  shows "rank item' = rank item \<and> score item' = score item \<and>
    (\<exists>v. metadata item' = dict_set (metadata item) (str ''chunk_text'') v \<and>
       (v = PStr placeholder \<or> v = dict_get (metadata item) (str ''chunk_text'') \<or>
        (\<exists>rec n. map_get data_map (dict_get (metadata item) (str ''doc_id'')) = Some rec \<and>
           as_int (dict_get (metadata item) (str ''chunk_index'')) = Some n \<and> 0 \<le> n \<and>
           py_getitem (dict_get_default rec (str ''chunks'') (PList [])) (nat n) = Inr v)))"
proof -
  from assms obtain c where
    c: "lookup_chunk data_map (dict_get (metadata item) (str ''doc_id''))
          (dict_get (metadata item) (str ''chunk_index'')) = Inr c"
    and i: "item' = \<lparr>rank = rank item, score = score item,
        metadata = (if truthy c then dict_set (metadata item) (str ''chunk_text'') c
                    else dict_set (metadata item) (str ''chunk_text'')
                           (py_or (dict_get (metadata item) (str ''chunk_text'')) (PStr placeholder)))\<rparr>"
    by (auto simp: enrich_item_def Let_def split: sum.splits)
  show ?thesis
  proof (cases "truthy c")
    case True
    then have "c \<noteq> PNone" by auto
    with lookup_chunk_cases [OF c] True i show ?thesis by auto
  next
    case False
    with i show ?thesis by (auto simp: py_or_def)
  qed
qed

lemma list_all2_total:
  "\<forall>x \<in> set xs. \<exists>y. R x y \<Longrightarrow> \<exists>ys. list_all2 R xs ys"
proof (induction xs)
  case Nil
  show ?case by simp
next
  case (Cons x xs)
  then obtain y ys where "R x y" "list_all2 R xs ys" by auto
  then have "list_all2 R (x # xs) (y # ys)" by simp
  then show ?case by blast
qed

lemma stored_record_listed:
  assumes "\<forall>pf \<in> set data_dir. stored_record (snd pf)"
    and "p \<in> set (map fst data_dir)" and "read_json data_dir p = Doc (PDict rec)"
  shows "\<exists>cs. dict_get_default rec (str ''chunks'') (PList []) = PList cs \<and> list_all is_text cs"
proof -
  from assms(2) obtain f where "read_json data_dir p = f" "(p, f) \<in> set data_dir"
    using read_json_listed [of p data_dir] by auto
  with assms(1,3) have "stored_record (Doc (PDict rec))" by auto
  then show ?thesis
    by (auto simp: stored_record_def split: pyval.splits)
qed

lemma enrich_item_total:
  assumes "\<forall>pf \<in> set data_dir. stored_record (snd pf)"
    and "hashable (dict_get (metadata item) (str ''doc_id''))"
  shows "\<exists>item'. enrich_item (load_data_map data_dir (map fst data_dir) []) item = Inr item'"
proof -
  have "\<exists>v. lookup_chunk (load_data_map data_dir (map fst data_dir) [])
          (dict_get (metadata item) (str ''doc_id''))
          (dict_get (metadata item) (str ''chunk_index'')) = Inr v"
  proof (rule lookup_chunk_listed [OF assms(2)])
    fix rec
    assume "map_get (load_data_map data_dir (map fst data_dir) [])
              (dict_get (metadata item) (str ''doc_id'')) = Some rec"
    from data_map_lookup [OF this] stored_record_listed [OF assms(1)]
    show "\<exists>cs. dict_get_default rec (str ''chunks'') (PList []) = PList cs" by blast
  qed
  then show ?thesis by (auto simp: enrich_item_def Let_def)
qed

lemma str_Nil_iff [simp]: "str s = [] \<longleftrightarrow> s = []"
  by (simp add: str_def)

lemma example_data_map:
  "load_data_map example_corpus (map fst example_corpus) [] =
     [(PStr (str ''b''), [(str ''doc_id'', PStr (str ''b'')), (str ''chunks'', PList [PStr (str ''z'')])]),
      (PStr (str ''a''), [(str ''doc_id'', PStr (str ''a'')),
                          (str ''chunks'', PList [PStr (str ''x''), PStr (str ''y'')])])]"
  by (simp add: example_corpus_def read_json_def dict_get_def key_eq_def)

lemma prepare_example:
  "prepare_retrieved_with_texts example_corpus example_results =
     Inr [\<lparr>rank = 1, score = 1 / 2,
           metadata = entry_of [(str ''doc_id'', PStr (str ''a''))] 1 @
                      [(str ''chunk_text'', PStr (str ''y''))]\<rparr>,
          \<lparr>rank = 2, score = 3 / 4,
           metadata = entry_of [(str ''doc_id'', PStr (str ''gone''))] 0 @
                      [(str ''chunk_text'', PStr placeholder)]\<rparr>,
          \<lparr>rank = 3, score = 1,
           metadata = entry_of [(str ''doc_id'', PStr (str ''b''))] 1 @
                      [(str ''chunk_text'', PStr placeholder)]\<rparr>]"
  unfolding prepare_retrieved_with_texts_def example_data_map
  by (simp add: example_results_def enrich_item_def lookup_chunk_def entry_of_def
      metadata_entry_def dict_get_def dict_get_default_def key_eq_def py_or_def Let_def)

lemma placeholder_text [simp]: "placeholder \<noteq> []"
  by (simp add: placeholder_def)

lemma index_entry_no_text:
  "index_entry md \<Longrightarrow> dict_get md (str ''chunk_text'') = PNone"
proof -
  assume "index_entry md"
  then have "str ''chunk_text'' \<notin> fst ` set md"
    unfolding index_entry_def
    by (simp only: set_map [symmetric]) simp
  then have "map_of md (str ''chunk_text'') = None"
    by (simp add: map_of_eq_None_iff)
  then show ?thesis by (simp add: dict_get_def)
qed

lemma lookup_stored:
  assumes recs: "\<forall>pf \<in> set data_dir. stored_record (snd pf)"
    and l: "lookup_chunk (load_data_map data_dir (map fst data_dir) []) doc_id chunk_i = Inr v"
  shows "v = PNone \<or> is_text v"
proof -
  from lookup_chunk_cases [OF l] show ?thesis
  proof
    assume "v = PNone" then show ?thesis ..
  next
    assume "\<exists>rec n. map_get (load_data_map data_dir (map fst data_dir) []) doc_id = Some rec \<and>
       as_int chunk_i = Some n \<and> 0 \<le> n \<and>
       py_getitem (dict_get_default rec (str ''chunks'') (PList [])) (nat n) = Inr v"
    then obtain rec n where
      m: "map_get (load_data_map data_dir (map fst data_dir) []) doc_id = Some rec"
      and g: "py_getitem (dict_get_default rec (str ''chunks'') (PList [])) (nat n) = Inr v"
      by blast
    from data_map_lookup [OF m] stored_record_listed [OF recs] obtain cs where
      "dict_get_default rec (str ''chunks'') (PList []) = PList cs" "list_all is_text cs"
      by blast
    with g have "is_text v"
      by (auto simp: list_all_length split: if_splits)
    then show ?thesis ..
  qed
qed

lemma lookup_fails_none:
  assumes recs: "\<forall>pf \<in> set data_dir. stored_record (snd pf)"
    and h: "hashable (dict_get md (str ''doc_id''))"
    and f: "lookup_fails data_dir md"
  shows "lookup_chunk (load_data_map data_dir (map fst data_dir) [])
           (dict_get md (str ''doc_id'')) (dict_get md (str ''chunk_index'')) = Inr PNone"
proof (cases "map_get (load_data_map data_dir (map fst data_dir) []) (dict_get md (str ''doc_id''))")
  case None
  with h show ?thesis by (simp add: lookup_chunk_def)
next
  case (Some rec)
  from data_map_lookup [OF Some] obtain p where p: "p \<in> set (map fst data_dir)"
    and r: "read_json data_dir p = Doc (PDict rec)"
    and k: "key_eq (dict_get rec (str ''doc_id'')) (dict_get md (str ''doc_id''))"
    by blast
  from stored_record_listed [OF recs p r] obtain cs where
    cs: "dict_get_default rec (str ''chunks'') (PList []) = PList cs"
    by blast
  from f p r k have "out_of_range (dict_get md (str ''chunk_index'')) (length (chunks_of rec))"
    by (auto simp: lookup_fails_def list_all_iff)
  then have "out_of_range (dict_get md (str ''chunk_index'')) (length cs)"
    by (simp add: chunks_of_def cs)
  with Some h cs show ?thesis
    by (auto simp: lookup_chunk_def out_of_range_def Let_def split: option.splits)
qed

lemma enrich_item_passage:
  assumes recs: "\<forall>pf \<in> set data_dir. stored_record (snd pf)"
    and ie: "index_entry (metadata item)"
    and e: "enrich_item (load_data_map data_dir (map fst data_dir) []) item = Inr item'"
  shows "\<exists>t. t \<noteq> [] \<and> dict_get (metadata item') (str ''chunk_text'') = PStr t"
proof -
  from e obtain c where
    c: "lookup_chunk (load_data_map data_dir (map fst data_dir) [])
          (dict_get (metadata item) (str ''doc_id''))
          (dict_get (metadata item) (str ''chunk_index'')) = Inr c"
    and m: "metadata item' =
        (if truthy c then dict_set (metadata item) (str ''chunk_text'') c
         else dict_set (metadata item) (str ''chunk_text'')
                (py_or (dict_get (metadata item) (str ''chunk_text'')) (PStr placeholder)))"
    by (auto simp: enrich_item_def Let_def split: sum.splits)
  show ?thesis
  proof (cases "truthy c")
    case True
    with lookup_stored [OF recs c] obtain t where "c = PStr t" "t \<noteq> []"
      by (cases c) (auto simp: is_text_def)
    with True m show ?thesis by (simp add: dict_get_dict_set)
  next
    case False
    with m index_entry_no_text [OF ie] show ?thesis
      by (simp add: dict_get_dict_set py_or_def)
  qed
qed

lemma enrich_item_placeholder:
  assumes recs: "\<forall>pf \<in> set data_dir. stored_record (snd pf)"
    and ie: "index_entry (metadata item)"
    and f: "lookup_fails data_dir (metadata item)"
    and e: "enrich_item (load_data_map data_dir (map fst data_dir) []) item = Inr item'"
  shows "dict_get (metadata item') (str ''chunk_text'') = PStr placeholder"
proof -
  from ie have h: "hashable (dict_get (metadata item) (str ''doc_id''))"
    by (simp add: index_entry_def)
  from e lookup_fails_none [OF recs h f] index_entry_no_text [OF ie] show ?thesis
    by (auto simp: enrich_item_def Let_def dict_get_dict_set py_or_def)
qed

lemma evidence_loop_passages:
  assumes "\<forall>e \<in> set es. \<exists>t. t \<noteq> [] \<and> dict_get (metadata (snd e)) (str ''chunk_text'') = PStr t"
  shows "\<exists>ls ms. evidence_loop fmt fill es lines mapping = Inr (lines @ ls, mapping @ ms) \<and>
           length ls = 3 * length es \<and> length ms = length es \<and>
           (\<forall>j < length es. \<forall>t.
              dict_get (metadata (snd (es ! j))) (str ''chunk_text'') = PStr t \<longrightarrow>
              ls ! (3 * j + 1) = fill t)"
  using assms
proof (induction es arbitrary: lines mapping)
  case Nil
  show ?case by simp
next
  case (Cons e es)
  obtain i item where e: "e = (i, item)" by (cases e)
  from Cons.prems e obtain t where t: "t \<noteq> []"
    and g: "dict_get (metadata item) (str ''chunk_text'') = PStr t"
    by auto
  define header where "header = evidence_header fmt i
      (py_or (dict_get (metadata item) (str ''source'')) (PStr []))
      (py_or (dict_get (metadata item) (str ''title'')) (PStr (str ''Untitled'')))
      (py_or (dict_get (metadata item) (str ''publishedAt'')) (PStr []))
      (dict_get (metadata item) (str ''chunk_index''))"
  define cit where "cit = \<lparr>idx = int i,
      title = py_or (dict_get (metadata item) (str ''title'')) (PStr (str ''Untitled'')),
      url = py_or (dict_get (metadata item) (str ''url'')) (PStr []),
      source = py_or (dict_get (metadata item) (str ''source'')) (PStr [])\<rparr>"
  have step: "evidence_loop fmt fill (e # es) lines mapping =
      evidence_loop fmt fill es (lines @ [header, fill t, []]) (mapping @ [cit])"
    using t g by (simp add: e py_or_def Let_def header_def cit_def)
  from Cons.prems have "\<forall>e \<in> set es. \<exists>t. t \<noteq> [] \<and>
      dict_get (metadata (snd e)) (str ''chunk_text'') = PStr t" by simp
  from Cons.IH [OF this, of "lines @ [header, fill t, []]" "mapping @ [cit]"]
  obtain ls ms where
    r: "evidence_loop fmt fill es (lines @ [header, fill t, []]) (mapping @ [cit]) =
        Inr ((lines @ [header, fill t, []]) @ ls, (mapping @ [cit]) @ ms)"
    and ll: "length ls = 3 * length es" and lm: "length ms = length es"
    and nth: "\<forall>j < length es. \<forall>t.
              dict_get (metadata (snd (es ! j))) (str ''chunk_text'') = PStr t \<longrightarrow>
              ls ! (3 * j + 1) = fill t"
    by blast
  have "\<forall>j < length (e # es). \<forall>t'.
          dict_get (metadata (snd ((e # es) ! j))) (str ''chunk_text'') = PStr t' \<longrightarrow>
          ([header, fill t, []] @ ls) ! (3 * j + 1) = fill t'"
  proof (intro allI impI)
    fix j t'
    assume j: "j < length (e # es)"
      and g': "dict_get (metadata (snd ((e # es) ! j))) (str ''chunk_text'') = PStr t'"
    show "([header, fill t, []] @ ls) ! (3 * j + 1) = fill t'"
    proof (cases j)
      case 0
      with g' g e show ?thesis by simp
    next
      case (Suc j')
      with j g' nth have "ls ! (3 * j' + 1) = fill t'" by simp
      moreover have "([header, fill t, []] @ ls) ! (3 * Suc j' + 1) = ls ! (3 * j' + 1)"
        by (simp add: nth_append)
      ultimately show ?thesis using Suc by simp
    qed
  qed
  with step r ll lm show ?case
    by (intro exI [of _ "[header, fill t, []] @ ls"] exI [of _ "cit # ms"]) simp
qed

text \<open>
  C7. Over a directory of stored records and for results whose metadata are index
  entries, take a result whose lookup fails: no readable record carries its identifier
  (the file is missing or unreadable), or the records that do have no chunk at its
  position. Then evidence assembly does not raise: \<open>prepare_retrieved_with_texts\<close> returns
  a list of the same length in which that result's \<open>chunk_text\<close> is the placeholder, and
  \<open>build_evidence_block\<close> returns an evidence block for the whole list in which the
  passage line of that result is the (wrapped) placeholder.
\<close>

theorem evidence_placeholder:
  assumes recs: "\<forall>pf \<in> set data_dir. stored_record (snd pf)"
    and ents: "\<forall>item \<in> set raw_results. index_entry (metadata item)"
    and i: "i < length raw_results"
    and f: "lookup_fails data_dir (metadata (raw_results ! i))"
  shows "\<exists>enriched lines mapping.
     prepare_retrieved_with_texts data_dir raw_results = Inr enriched \<and>
     length enriched = length raw_results \<and>
     dict_get (metadata (enriched ! i)) (str ''chunk_text'') = PStr placeholder \<and>
     evidence_lines fmt fill enriched = Inr (lines, mapping) \<and>
     length lines = 3 * length raw_results \<and>
     lines ! (3 * i + 1) = fill placeholder \<and>
     build_evidence_block fmt fill enriched = Inr (py_join [10] lines, mapping)"
proof -
  define dm where "dm = load_data_map data_dir (map fst data_dir) []"
  from ents have "\<forall>item \<in> set raw_results. hashable (dict_get (metadata item) (str ''doc_id''))"
    by (simp add: index_entry_def)
  then have "\<forall>item \<in> set raw_results. \<exists>item'. enrich_item dm item = Inr item'"
    unfolding dm_def using enrich_item_total [OF recs] by blast
  from list_all2_total [OF this] obtain enriched where
    all: "list_all2 (\<lambda>item item'. enrich_item dm item = Inr item') raw_results enriched"
    by blast
  then have run: "prepare_retrieved_with_texts data_dir raw_results = Inr enriched"
    by (simp add: prepare_retrieved_with_texts_def enrich_all_iff dm_def)
  from all have len: "length enriched = length raw_results"
    by (simp add: list_all2_lengthD)
  have item: "enrich_item dm (raw_results ! j) = Inr (enriched ! j)" if "j < length raw_results" for j
    using list_all2_nthD [OF all that] .
  have here: "dict_get (metadata (enriched ! i)) (str ''chunk_text'') = PStr placeholder"
    using enrich_item_placeholder [OF recs _ f] item [OF i] ents i
    unfolding dm_def by simp
  have passages: "\<forall>e \<in> set (enumerate 1 enriched).
      \<exists>t. t \<noteq> [] \<and> dict_get (metadata (snd e)) (str ''chunk_text'') = PStr t"
  proof
    fix e assume "e \<in> set (enumerate 1 enriched)"
    then have "snd e \<in> snd ` set (enumerate 1 enriched)"
      by (rule imageI)
    then have "snd e \<in> set enriched"
      by (simp only: set_map [symmetric] map_snd_enumerate)
    then obtain j where j: "j < length raw_results" and s: "snd e = enriched ! j"
      using len by (auto simp: in_set_conv_nth)
    from j ents have "index_entry (metadata (raw_results ! j))" by simp
    from enrich_item_passage [OF recs this] item [OF j] s
    show "\<exists>t. t \<noteq> [] \<and> dict_get (metadata (snd e)) (str ''chunk_text'') = PStr t"
      unfolding dm_def by simp
  qed
  from evidence_loop_passages [OF passages, of fmt fill "[]" "[]"] obtain ls ms where
    ev: "evidence_loop fmt fill (enumerate 1 enriched) [] [] = Inr (ls, ms)"
    and ll: "length ls = 3 * length enriched"
    and nth: "\<forall>j < length (enumerate 1 enriched). \<forall>t.
        dict_get (metadata (snd (enumerate 1 enriched ! j))) (str ''chunk_text'') = PStr t \<longrightarrow>
        ls ! (3 * j + 1) = fill t"
    by auto
  from nth i len here have line: "ls ! (3 * i + 1) = fill placeholder"
    by (simp add: nth_enumerate_eq)
  from ev have "build_evidence_block fmt fill enriched = Inr (py_join [10] ls, ms)"
    by (simp add: build_evidence_block_def evidence_lines_def)
  with run len here ev ll line show ?thesis
    by (auto simp: evidence_lines_def)
qed

theorem evidence_placeholder_witness:
  "list_all (\<lambda>pf. stored_record (snd pf)) example_corpus \<and>
   list_all (\<lambda>item. index_entry (metadata item)) example_results \<and>
   lookup_fails example_corpus (metadata (example_results ! 1)) \<and>
   lookup_fails example_corpus (metadata (example_results ! 2)) \<and>
   (\<exists>enriched lines mapping.
     prepare_retrieved_with_texts example_corpus example_results = Inr enriched \<and>
     length enriched = length example_results \<and>
     dict_get (metadata (enriched ! 1)) (str ''chunk_text'') = PStr placeholder \<and>
     evidence_lines (\<lambda>v. []) (\<lambda>t. t) enriched = Inr (lines, mapping) \<and>
     length lines = 3 * length example_results \<and>
     lines ! (3 * 1 + 1) = placeholder \<and>
     build_evidence_block (\<lambda>v. []) (\<lambda>t. t) enriched = Inr (py_join [10] lines, mapping)) \<and>
   (\<exists>enriched lines mapping.
     prepare_retrieved_with_texts example_corpus example_results = Inr enriched \<and>
     length enriched = length example_results \<and>
     dict_get (metadata (enriched ! 2)) (str ''chunk_text'') = PStr placeholder \<and>
     evidence_lines (\<lambda>v. []) (\<lambda>t. t) enriched = Inr (lines, mapping) \<and>
     length lines = 3 * length example_results \<and>
     lines ! (3 * 2 + 1) = placeholder \<and>
     build_evidence_block (\<lambda>v. []) (\<lambda>t. t) enriched = Inr (py_join [10] lines, mapping))"
proof -
  have h1: "\<forall>pf \<in> set example_corpus. stored_record (snd pf)"
    by (simp add: example_corpus_def stored_record_def dict_get_default_def is_text_def)
  have h2: "\<forall>item \<in> set example_results. index_entry (metadata item)"
    by (simp add: example_results_def index_entry_def entry_of_def metadata_entry_def dict_get_def)
  have n: "(1::nat) < length example_results" "(2::nat) < length example_results"
    by (simp_all add: example_results_def)
  have f1: "lookup_fails example_corpus (metadata (example_results ! 1))"
    by (simp add: example_results_def example_corpus_def lookup_fails_def read_json_def
        entry_of_def metadata_entry_def dict_get_def key_eq_def)
  have f2: "lookup_fails example_corpus (metadata (example_results ! 2))"
    by (simp add: example_results_def example_corpus_def lookup_fails_def read_json_def
        entry_of_def metadata_entry_def dict_get_def dict_get_default_def key_eq_def
        chunks_of_def out_of_range_def)
  from evidence_placeholder [OF h1 h2 n(1) f1, of "\<lambda>v. []" "\<lambda>t. t"]
    evidence_placeholder [OF h1 h2 n(2) f2, of "\<lambda>v. []" "\<lambda>t. t"]
    h1 h2 f1 f2
  show ?thesis
    by (simp add: list_all_iff)
qed

section \<open>The response of two objects back to back\<close>

lemma two_objects_body_chars:
  "two_objects_body =
     [123, 34, 114, 101, 115, 112, 111, 110, 115, 101, 34, 58, 34, 65, 32, 34, 125,
      123, 34, 114, 101, 115, 112, 111, 110, 115, 101, 34, 58, 34, 66, 34, 125]"
  by (simp add: two_objects_body_def str_def)

lemma fuel_three: "3 \<le> n \<Longrightarrow> \<exists>m. n = Suc (Suc (Suc m))"
  by (cases n rule: nat.exhaust; simp; rename_tac k; case_tac k; simp; rename_tac j; case_tac j; simp)

lemma scan_first_object:
  assumes "3 \<le> n"
  shows "scan_once pf n two_objects_body =
           Some (PDict [(str ''response'', PStr (str ''A ''))], drop 17 two_objects_body)"
proof -
  from fuel_three [OF assms] obtain m where "n = Suc (Suc (Suc m))" by blast
  then show ?thesis
    unfolding two_objects_body_chars
    by (simp add: skip_ws_def json_ws_def dict_of_pairs_def str_def)
qed

lemma scan_second_object:
  assumes "3 \<le> n"
  shows "scan_once pf n (drop 17 two_objects_body) =
           Some (PDict [(str ''response'', PStr (str ''B''))], [])"
proof -
  from fuel_three [OF assms] obtain m where "n = Suc (Suc (Suc m))" by blast
  then show ?thesis
    unfolding two_objects_body_chars
    by (simp add: skip_ws_def json_ws_def dict_of_pairs_def str_def)
qed

lemma two_objects_body_len: "length two_objects_body = 33"
  by (simp add: two_objects_body_chars)

lemma scan_first_whole:
  "scan_once pf (Suc (length two_objects_body)) two_objects_body =
     Some (PDict [(str ''response'', PStr (str ''A ''))], drop 17 two_objects_body)"
  by (rule scan_first_object) (simp add: two_objects_body_len)

lemma two_objects_not_single: "json_loads pf two_objects_body = None"
proof -
  have ws: "skip_ws two_objects_body = two_objects_body"
    by (simp add: two_objects_body_chars skip_ws_def json_ws_def)
  have ne: "skip_ws (drop 17 two_objects_body) \<noteq> []"
    by (simp add: two_objects_body_chars skip_ws_def json_ws_def)
  show ?thesis
    by (simp add: json_loads_def ws scan_first_whole ne)
qed

lemma raw_decode_first:
  "raw_decode pf two_objects_body 0 =
     Some (PDict [(str ''response'', PStr (str ''A ''))], 17)"
  by (simp add: raw_decode_def scan_first_object two_objects_body_len)

lemma raw_decode_second:
  "raw_decode pf two_objects_body 17 =
     Some (PDict [(str ''response'', PStr (str ''B''))], 33)"
  by (simp add: raw_decode_def scan_second_object two_objects_body_len)

lemma find_braces:
  "py_find two_objects_body 123 0 = Some 0"
  "py_find two_objects_body 123 17 = Some 17"
  "py_find two_objects_body 123 33 = None"
  by (simp_all add: py_find_def two_objects_body_chars)

lemma extract_two_objects:
  "extract_json_objects_from_text pf two_objects_body =
     Some [PDict [(str ''response'', PStr (str ''A ''))],
           PDict [(str ''response'', PStr (str ''B''))]]"
  unfolding extract_json_objects_from_text_def
  apply (subst extract_loop.simps, simp add: find_braces raw_decode_first)
  apply (subst extract_loop.simps, simp add: find_braces raw_decode_second)
  apply (subst extract_loop.simps, simp add: find_braces)
  done

lemma assemble_two_objects:
  "assemble_responses_from_objs
     [PDict [(str ''response'', PStr (str ''A ''))],
      PDict [(str ''response'', PStr (str ''B''))]] = Inr (str ''A B'')"
  by (simp add: assemble_responses_from_objs_def obj_parts_def py_strip_def str_def is_space_def)

text \<open>
  C8. On the body \<open>{"response":"A "}{"response":"B"}\<close> (two objects, no separator) the
  response is not one JSON value; the extraction returns the two objects in the order
  in which they occur, their fragments are joined in that order, and the text returned
  is \<open>A B\<close>.
\<close>

theorem response_text_two_objects:
  "json_loads pf two_objects_body = None \<and>
   extract_json_objects_from_text pf two_objects_body =
     Some [PDict [(str ''response'', PStr (str ''A ''))],
           PDict [(str ''response'', PStr (str ''B''))]] \<and>
   response_text pf fmt dumps two_objects_body = Some (Inr (str ''A B''))"
  by (simp add: response_text_def single_object_text_def two_objects_not_single
      extract_two_objects assemble_two_objects)

section \<open>Facts about querying\<close>

lemma py_index_nat: "j < length xs \<Longrightarrow> py_index xs (int j) = Inr (xs ! j)"
  by (simp add: py_index_def)

lemma py_index_last: "xs \<noteq> [] \<Longrightarrow> py_index xs (- 1) = Inr (last xs)"
  by (cases xs rule: rev_cases) (simp_all add: py_index_def nat_add_distrib)

lemma query_loop_run:
  assumes "\<forall>e \<in> set es. fst e < length D0 \<and> py_index metas (snd e) = Inr (pick (snd e))"
  shows "query_loop metas D0 es results =
     Inr (results @
          map (\<lambda>e. \<lparr>rank = int (fst e) + 1, score = D0 ! fst e, metadata = pick (snd e)\<rparr>) es)"
  using assms
proof (induction es arbitrary: results)
  case Nil
  show ?case by simp
next
  case (Cons e es)
  obtain r ix where e: "e = (r, ix)" by (cases e)
  with Cons.prems have "r < length D0" "py_index metas ix = Inr (pick ix)" by auto
  moreover from Cons.prems have
    "\<forall>e \<in> set es. fst e < length D0 \<and> py_index metas (snd e) = Inr (pick (snd e))" by simp
  ultimately show ?case using Cons.IH e by simp
qed

lemma flat_search_lengths:
  "length (fst (flat_search dists far k)) = k" "length (snd (flat_search dists far k)) = k"
  by (simp_all add: flat_search_def Let_def)

lemma flat_search_found:
  assumes "r < k" and "r < length dists"
  shows "\<exists>j < length dists.
           sort_key (\<lambda>j. dists ! j) [0..<length dists] ! r = j \<and>
           snd (flat_search dists far k) ! r = int j \<and>
           fst (flat_search dists far k) ! r = dists ! j"
proof -
  define order where "order = sort_key (\<lambda>j. dists ! j) [0..<length dists]"
  have len: "length order = length dists" by (simp add: order_def)
  with assms have "order ! r \<in> set order" by simp
  then have j: "order ! r < length dists" by (simp add: order_def)
  from assms len have "take k order ! r = order ! r" "r < length (take k order)" by simp_all
  then have "snd (flat_search dists far k) ! r = int (order ! r)"
    and "fst (flat_search dists far k) ! r = dists ! (order ! r)"
    by (simp_all add: flat_search_def Let_def order_def [symmetric] nth_append)
  with j show ?thesis unfolding order_def by blast
qed

lemma flat_search_padding:
  assumes "length dists \<le> r" and "r < k"
  shows "snd (flat_search dists far k) ! r = - 1" and "fst (flat_search dists far k) ! r = far"
  using assms by (simp_all add: flat_search_def Let_def nth_append)

lemma flat_search_sorted:
  "k \<le> length dists \<Longrightarrow> sorted (fst (flat_search dists far k))"
proof -
  assume "k \<le> length dists"
  then have "fst (flat_search dists far k) =
      take k (map (\<lambda>j. dists ! j) (sort_key (\<lambda>j. dists ! j) [0..<length dists]))"
    by (simp add: flat_search_def Let_def take_map)
  then show ?thesis
    by (simp add: sorted_wrt_take)
qed

lemma query_index_flat:
  assumes "length metas = length dists" and "k \<le> length dists \<or> metas \<noteq> []"
  shows "query_index (Some (flat_index dists far metas)) k =
     Inr (map (\<lambda>r. \<lparr>rank = int r + 1, score = fst (flat_search dists far k) ! r,
                      metadata = picked metas (snd (flat_search dists far k) ! r)\<rparr>) [0..<k])"
proof -
  define D0 I0 where "D0 = fst (flat_search dists far k)" and "I0 = snd (flat_search dists far k)"
  have lD: "length D0 = k" and lI: "length I0 = k"
    by (simp_all add: D0_def I0_def flat_search_lengths)
  have ok: "\<forall>e \<in> set (enumerate 0 I0).
      fst e < length D0 \<and> py_index metas (snd e) = Inr (picked metas (snd e))"
  proof
    fix e assume "e \<in> set (enumerate 0 I0)"
    then have r: "fst e < k" and ix: "snd e = I0 ! fst e"
      by (auto simp: in_set_enumerate_eq lI)
    have "py_index metas (snd e) = Inr (picked metas (snd e))"
    proof (cases "fst e < length dists")
      case True
      from flat_search_found [OF r True, of far] obtain j where
        "j < length dists" "I0 ! fst e = int j" unfolding I0_def by blast
      with ix assms(1) show ?thesis by (simp add: py_index_nat picked_def)
    next
      case False
      with r assms(2) have ne: "metas \<noteq> []" by auto
      from False r have "I0 ! fst e = - 1"
        unfolding I0_def by (intro flat_search_padding) simp_all
      with ix ne show ?thesis by (simp add: py_index_last picked_def)
    qed
    with r lD show "fst e < length D0 \<and> py_index metas (snd e) = Inr (picked metas (snd e))"
      by simp
  qed
  have "map (\<lambda>e. \<lparr>rank = int (fst e) + 1, score = D0 ! fst e, metadata = picked metas (snd e)\<rparr>)
          (enumerate 0 I0) =
        map (\<lambda>r. \<lparr>rank = int r + 1, score = D0 ! r, metadata = picked metas (I0 ! r)\<rparr>) [0..<k]"
    by (rule nth_equalityI) (simp_all add: lI nth_enumerate_eq)
  with query_loop_run [OF ok, of "[]"] show ?thesis
    by (simp add: query_index_def flat_index_def D0_def I0_def case_prod_unfold Let_def)
qed

text \<open>
  C4. Over an index of \<open>N\<close> vectors with its \<open>N\<close> metadata entries, a query with \<open>k \<le> N\<close>
  returns exactly \<open>k\<close> results; the result at list position \<open>r\<close> has rank \<open>r + 1\<close>, the
  distance of the position the search returned there and the metadata entry at that
  position; and the distances do not decrease along the list.
\<close>

theorem query_index_top_k:
  assumes "length metas = length dists" and "k \<le> length dists"
  shows "\<exists>results. query_index (Some (flat_index dists far metas)) k = Inr results \<and>
     length results = k \<and>
     (\<forall>r < k. rank (results ! r) = int r + 1) \<and>
     sorted (map score results) \<and>
     (\<forall>r < k. \<exists>j < length dists.
        snd (flat_search dists far k) ! r = int j \<and>
        score (results ! r) = dists ! j \<and>
        metadata (results ! r) = metas ! j)"
proof -
  define results where "results =
    map (\<lambda>r. \<lparr>rank = int r + 1, score = fst (flat_search dists far k) ! r,
               metadata = picked metas (snd (flat_search dists far k) ! r)\<rparr>) [0..<k]"
  have run: "query_index (Some (flat_index dists far metas)) k = Inr results"
    unfolding results_def using assms by (intro query_index_flat) simp_all
  have "map score results = map (\<lambda>r. fst (flat_search dists far k) ! r) [0..<k]"
    by (simp add: results_def comp_def)
  also have "\<dots> = fst (flat_search dists far k)"
    using flat_search_lengths(1) [of dists far k] map_nth [of "fst (flat_search dists far k)"]
    by simp
  finally have srt: "sorted (map score results)"
    using flat_search_sorted [OF assms(2)] by simp
  have pos: "\<forall>r < k. \<exists>j < length dists.
        snd (flat_search dists far k) ! r = int j \<and>
        score (results ! r) = dists ! j \<and>
        metadata (results ! r) = metas ! j"
  proof (intro allI impI)
    fix r assume r: "r < k"
    with assms(2) have "r < length dists" by simp
    from flat_search_found [OF r this, of far] obtain j where
      "j < length dists" "snd (flat_search dists far k) ! r = int j"
      "fst (flat_search dists far k) ! r = dists ! j" by blast
    with r show "\<exists>j < length dists.
        snd (flat_search dists far k) ! r = int j \<and>
        score (results ! r) = dists ! j \<and>
        metadata (results ! r) = metas ! j"
      by (auto simp: results_def picked_def)
  qed
  from run srt pos show ?thesis
    by (auto simp: results_def)
qed

text \<open>
  C5. Over an index of \<open>N \<ge> 1\<close> vectors with its \<open>N\<close> metadata entries, a query with
  \<open>k > N\<close> does not raise. It returns \<open>k\<close> results of which the first \<open>N\<close> come from the
  \<open>N\<close> positions of the index; the other \<open>k - N\<close> are the padding of the search (position
  \<open>-1\<close>, the distance \<open>far\<close>), to which \<open>metadatas[-1]\<close> gives the last metadata entry.
\<close>

theorem query_index_beyond_corpus:
  assumes "length metas = length dists" and "metas \<noteq> []" and "length dists < k"
  shows "\<exists>results. query_index (Some (flat_index dists far metas)) k = Inr results \<and>
     length results = k \<and>
     length (filter (\<lambda>ix. 0 \<le> ix) (snd (flat_search dists far k))) = length dists \<and>
     (\<forall>r < length dists. \<exists>j < length dists.
        snd (flat_search dists far k) ! r = int j \<and>
        score (results ! r) = dists ! j \<and>
        metadata (results ! r) = metas ! j) \<and>
     (\<forall>r. length dists \<le> r \<and> r < k \<longrightarrow>
        snd (flat_search dists far k) ! r = - 1 \<and>
        score (results ! r) = far \<and>
        metadata (results ! r) = last metas)"
proof -
  define results where "results =
    map (\<lambda>r. \<lparr>rank = int r + 1, score = fst (flat_search dists far k) ! r,
               metadata = picked metas (snd (flat_search dists far k) ! r)\<rparr>) [0..<k]"
  have run: "query_index (Some (flat_index dists far metas)) k = Inr results"
    unfolding results_def using assms by (intro query_index_flat) simp_all
  have cnt: "length (filter (\<lambda>ix. 0 \<le> ix) (snd (flat_search dists far k))) = length dists"
    using assms(3) by (simp add: flat_search_def Let_def filter_map comp_def)
  have real: "\<forall>r < length dists. \<exists>j < length dists.
        snd (flat_search dists far k) ! r = int j \<and>
        score (results ! r) = dists ! j \<and>
        metadata (results ! r) = metas ! j"
  proof (intro allI impI)
    fix r assume r: "r < length dists"
    with assms(3) have rk: "r < k" by simp
    from flat_search_found [OF rk r, of far] obtain j where
      "j < length dists" "snd (flat_search dists far k) ! r = int j"
      "fst (flat_search dists far k) ! r = dists ! j" by blast
    with rk show "\<exists>j < length dists.
        snd (flat_search dists far k) ! r = int j \<and>
        score (results ! r) = dists ! j \<and>
        metadata (results ! r) = metas ! j"
      by (auto simp: results_def picked_def)
  qed
  have pad: "\<forall>r. length dists \<le> r \<and> r < k \<longrightarrow>
        snd (flat_search dists far k) ! r = - 1 \<and>
        score (results ! r) = far \<and>
        metadata (results ! r) = last metas"
    using flat_search_padding [of dists _ k far]
    by (auto simp: results_def picked_def)
  from run cnt real pad show ?thesis
    by (auto simp: results_def)
qed

lemma example_search:
  "flat_search [3, 1, 2 :: int] 1000 2 = ([1, 2], [1, 2])"
  "flat_search [3, 1, 2 :: int] 1000 5 = ([1, 2, 3, 1000, 1000], [1, 2, 0, - 1, - 1])"
  by (simp_all add: flat_search_def upt_rec numeral_eq_Suc)

lemma query_index_example:
  "query_index (Some example_index) 2 =
     Inr [\<lparr>rank = 1, score = 1, metadata = entry_of [(str ''doc_id'', PStr (str ''a''))] 1\<rparr>,
          \<lparr>rank = 2, score = 2, metadata = entry_of [(str ''doc_id'', PStr (str ''b''))] 0\<rparr>]"
  by (simp add: query_index_def example_index_def flat_index_def example_search
      example_metas_def py_index_def enumerate_eq_zip upt_rec)

lemma query_index_example_padded:
  "query_index (Some example_index) 5 =
     Inr [\<lparr>rank = 1, score = 1, metadata = entry_of [(str ''doc_id'', PStr (str ''a''))] 1\<rparr>,
          \<lparr>rank = 2, score = 2, metadata = entry_of [(str ''doc_id'', PStr (str ''b''))] 0\<rparr>,
          \<lparr>rank = 3, score = 3, metadata = entry_of [(str ''doc_id'', PStr (str ''a''))] 0\<rparr>,
          \<lparr>rank = 4, score = 1000, metadata = entry_of [(str ''doc_id'', PStr (str ''b''))] 0\<rparr>,
          \<lparr>rank = 5, score = 1000, metadata = entry_of [(str ''doc_id'', PStr (str ''b''))] 0\<rparr>]"
  by (simp add: query_index_def example_index_def flat_index_def example_search
      example_metas_def py_index_def enumerate_eq_zip upt_rec)

theorem query_index_top_k_witness:
  "length example_metas = length [3, 1, 2 :: int] \<and> (2::nat) \<le> length [3, 1, 2 :: int] \<and>
   (\<exists>results. query_index (Some (flat_index [3, 1, 2 :: int] 1000 example_metas)) 2 = Inr results \<and>
     length results = 2 \<and>
     (\<forall>r < 2. rank (results ! r) = int r + 1) \<and>
     sorted (map score results) \<and>
     (\<forall>r < 2. \<exists>j < length [3, 1, 2 :: int].
        snd (flat_search [3, 1, 2 :: int] 1000 2) ! r = int j \<and>
        score (results ! r) = [3, 1, 2 :: int] ! j \<and>
        metadata (results ! r) = example_metas ! j))"
proof -
  have h1: "length example_metas = length [3, 1, 2 :: int]"
    by (simp add: example_metas_def)
  have h2: "(2::nat) \<le> length [3, 1, 2 :: int]"
    by simp
  from query_index_top_k [OF h1 h2, of 1000] h1 h2 show ?thesis
    by blast
qed

theorem query_index_beyond_corpus_witness:
  "length example_metas = length [3, 1, 2 :: int] \<and> example_metas \<noteq> [] \<and>
   length [3, 1, 2 :: int] < (5::nat) \<and>
   (\<exists>results. query_index (Some (flat_index [3, 1, 2 :: int] 1000 example_metas)) 5 = Inr results \<and>
     length results = 5 \<and>
     length (filter (\<lambda>ix. 0 \<le> ix) (snd (flat_search [3, 1, 2 :: int] 1000 5))) =
       length [3, 1, 2 :: int] \<and>
     (\<forall>r < length [3, 1, 2 :: int]. \<exists>j < length [3, 1, 2 :: int].
        snd (flat_search [3, 1, 2 :: int] 1000 5) ! r = int j \<and>
        score (results ! r) = [3, 1, 2 :: int] ! j \<and>
        metadata (results ! r) = example_metas ! j) \<and>
     (\<forall>r. length [3, 1, 2 :: int] \<le> r \<and> r < 5 \<longrightarrow>
        snd (flat_search [3, 1, 2 :: int] 1000 5) ! r = - 1 \<and>
        score (results ! r) = 1000 \<and>
        metadata (results ! r) = last example_metas))"
proof -
  have h1: "length example_metas = length [3, 1, 2 :: int]"
    by (simp add: example_metas_def)
  have h2: "example_metas \<noteq> []"
    by (simp add: example_metas_def)
  have h3: "length [3, 1, 2 :: int] < (5::nat)"
    by simp
  from query_index_beyond_corpus [OF h1 h2 h3, of 1000] h1 h2 h3 show ?thesis
    by blast
qed

section \<open>Facts about ingestion\<close>

lemma chunk_text_windows:
  assumes "0 \<le> overlap" and "overlap < chunk_size"
  shows "chunk_text text chunk_size overlap =
     Some (map (py_join [32])
        (windows_from (py_split text) (nat chunk_size) (nat (chunk_size - overlap)) 0))"
proof -
  have "0 < nat (chunk_size - overlap)" using assms by simp
  from chunk_loop_windows [OF this, of "py_split text" "nat overlap" 0 "[]"] assms
  show ?thesis
    by (simp add: chunk_text_def) (metis add.commute diff_add_cancel nat_0_le nat_add_distrib
        diff_ge_0_iff_ge less_imp_le int_nat_eq)
qed

lemma chunk_text_defaults: "\<exists>chunks. chunk_text t 350 50 = Some chunks"
  using chunk_text_windows [of 50 350 t] by simp

lemma map_of_write_json:
  "map_of (write_json data_dir path doc) = (map_of data_dir)(path \<mapsto> Doc doc)"
  by (induction data_dir) (auto simp: fun_eq_iff)

lemma read_json_write_json:
  "read_json (write_json data_dir path doc) p =
     (if p = path then Doc doc else read_json data_dir p)"
  by (simp add: read_json_def map_of_write_json)

lemma files_write_json:
  "fst ` set (write_json data_dir path doc) = insert path (fst ` set data_dir)"
proof -
  have "fst ` set (write_json data_dir path doc) = dom (map_of (write_json data_dir path doc))"
    by (simp add: dom_map_of_conv_image_fst)
  also have "\<dots> = insert path (dom (map_of data_dir))"
    by (simp add: map_of_write_json)
  finally show ?thesis by (simp add: dom_map_of_conv_image_fst)
qed

lemma file_of_record_built:
  "file_of_record (PDict ((str ''doc_id'', PStr i) # others)) = record_file i"
  by (simp add: file_of_record_def dict_get_def)

lemma ingest_article_cases:
  "(\<exists>e. ingest_article h sc art data_dir docs = Some (data_dir, Inl e)) \<or>
   ingest_article h sc art data_dir docs = Some (data_dir, Inr docs) \<or>
   (\<exists>a u doc. art = PDict a \<and> dict_get a (str ''url'') = PStr u \<and>
      file_of_record doc = record_file (h u) \<and>
      ingest_article h sc art data_dir docs =
        Some (write_json data_dir (record_file (h u)) doc, Inr (docs @ [doc])))"
proof (cases art)
  case (PDict a)
  show ?thesis
  proof (cases "dict_get a (str ''url'')")
    case (PStr u)
    define full where "full = py_or (py_or (dict_get (sc u) (str ''text''))
        (dict_get a (str ''content''))) (dict_get a (str ''description''))"
    show ?thesis
    proof (cases "u \<noteq> [] \<and> truthy full")
      case False
      then have "ingest_article h sc art data_dir docs = Some (data_dir, Inr docs)"
        by (auto simp: ingest_article_def PDict PStr Let_def full_def)
      then show ?thesis by blast
    next
      case True
      show ?thesis
      proof (cases "\<exists>t. full = PStr t")
        case False
        with True have "ingest_article h sc art data_dir docs = Some (data_dir, Inl AttributeError)"
          by (cases full) (simp_all add: ingest_article_def PDict PStr Let_def full_def [symmetric])
        then show ?thesis by blast
      next
        case yes: True
        then obtain t where t: "full = PStr t" by blast
        from chunk_text_defaults [of t] obtain chunks where
          c: "chunk_text t 350 50 = Some chunks" by blast
        show ?thesis
        proof (cases "source_name a")
          case (Inl e)
          with True c t have "ingest_article h sc art data_dir docs = Some (data_dir, Inl e)"
            by (simp add: ingest_article_def PDict PStr Let_def full_def [symmetric])
          then show ?thesis by blast
        next
          case (Inr src)
          define doc where "doc = PDict
             ((str ''doc_id'', PStr (h u)) #
              [(str ''title'', py_or (dict_get (sc u) (str ''title'')) (dict_get a (str ''title''))),
               (str ''url'', PStr u),
               (str ''source'', src),
               (str ''publishedAt'', dict_get a (str ''publishedAt'')),
               (str ''chunks'', PList (map PStr chunks))])"
          from Inr True c t have "ingest_article h sc art data_dir docs =
              Some (write_json data_dir (record_file (h u)) doc, Inr (docs @ [doc]))"
            by (simp add: ingest_article_def PDict PStr Let_def full_def [symmetric] doc_def)
          moreover have "file_of_record doc = record_file (h u)"
            unfolding doc_def by (rule file_of_record_built)
          ultimately show ?thesis using PDict PStr by blast
        qed
      qed
    qed
  next
    case PNone
    then have "ingest_article h sc art data_dir docs = Some (data_dir, Inr docs)"
      by (simp add: ingest_article_def PDict Let_def)
    then show ?thesis by blast
  next
    case (PBool b)
    then have "ingest_article h sc art data_dir docs = Some (data_dir, Inr docs) \<or>
        ingest_article h sc art data_dir docs = Some (data_dir, Inl AttributeError)"
      by (simp add: ingest_article_def PDict Let_def)
    then show ?thesis by blast
  next
    case (PInt i)
    then have "ingest_article h sc art data_dir docs = Some (data_dir, Inr docs) \<or>
        ingest_article h sc art data_dir docs = Some (data_dir, Inl AttributeError)"
      by (simp add: ingest_article_def PDict Let_def)
    then show ?thesis by blast
  next
    case (PFloat f)
    then have "ingest_article h sc art data_dir docs = Some (data_dir, Inr docs) \<or>
        ingest_article h sc art data_dir docs = Some (data_dir, Inl AttributeError)"
      by (simp add: ingest_article_def PDict Let_def)
    then show ?thesis by blast
  next
    case (PList xs)
    then have "ingest_article h sc art data_dir docs = Some (data_dir, Inr docs) \<or>
        ingest_article h sc art data_dir docs = Some (data_dir, Inl AttributeError)"
      by (simp add: ingest_article_def PDict Let_def)
    then show ?thesis by blast
  next
    case (PDict d)
    then have "ingest_article h sc art data_dir docs = Some (data_dir, Inr docs) \<or>
        ingest_article h sc art data_dir docs = Some (data_dir, Inl AttributeError)"
      by (simp add: ingest_article_def \<open>art = PDict a\<close> Let_def)
    then show ?thesis by blast
  qed
next
  case PNone
  then have "ingest_article h sc art data_dir docs = Some (data_dir, Inl AttributeError)"
    by (simp add: ingest_article_def)
  then show ?thesis by blast
next
  case (PBool b)
  then have "ingest_article h sc art data_dir docs = Some (data_dir, Inl AttributeError)"
    by (simp add: ingest_article_def)
  then show ?thesis by blast
next
  case (PInt i)
  then have "ingest_article h sc art data_dir docs = Some (data_dir, Inl AttributeError)"
    by (simp add: ingest_article_def)
  then show ?thesis by blast
next
  case (PFloat f)
  then have "ingest_article h sc art data_dir docs = Some (data_dir, Inl AttributeError)"
    by (simp add: ingest_article_def)
  then show ?thesis by blast
next
  case (PStr s)
  then have "ingest_article h sc art data_dir docs = Some (data_dir, Inl AttributeError)"
    by (simp add: ingest_article_def)
  then show ?thesis by blast
next
  case (PList xs)
  then have "ingest_article h sc art data_dir docs = Some (data_dir, Inl AttributeError)"
    by (simp add: ingest_article_def)
  then show ?thesis by blast
qed

section \<open>The build path on a corpus without chunks\<close>

lemma py_split_blank: "py_split (str ''   '') = []"
  by (simp add: py_split_def str_def)

lemma chunk_text_blank: "chunk_text (str ''   '') 350 50 = Some []"
  using chunk_text_windows [of 50 350 "str ''   ''"]
  by (simp add: py_split_blank windows_from_done)

lemma chunk_text_blank_codes: "chunk_text [32, 32, 32] 350 50 = Some []"
  using chunk_text_blank by (simp add: str_def)

lemma ingest_blank_article:
  "ingest_query digest_stand_in no_scrape blank_fetch [] =
     Some (blank_corpus, Inr [record_with []])"
  by (simp add: ingest_query_def ingest_article_def blank_fetch_def no_scrape_def
      digest_stand_in_def dict_get_def dict_get_default_def py_or_def source_name_def
      chunk_text_blank_codes record_with_def record_file_def blank_corpus_def Let_def str_def)

lemma collect_docs_no_files: "collect_docs [] = Inl (RuntimeError no_files_message)"
  by (simp add: collect_docs_def)

lemma collect_docs_blank: "collect_docs blank_corpus = Inr ([], [])"
  by (simp add: collect_docs_def blank_corpus_def record_with_def read_json_def dict_get_def
      dict_get_default_def)

text \<open>
  C6. The specification asks that the build fails fast, with the error that sends the
  user to ingestion, whenever there is no chunk to embed. \<open>collect_docs\<close> raises that
  error only when there is no file: on an empty directory the build ends with it. Ingesting an article whose text is blank writes a
  record with an empty chunk list; on that corpus \<open>collect_docs\<close> returns two empty
  lists, and \<open>build_faiss_index\<close>, which has no check, hands the empty list to the
  encoder: for every encoder the build ends as the encoder and \<open>embs.shape[1]\<close> decide.
  With an encoder that returns an array of shape \<open>(0, 384)\<close> an index of no vector is
  written; with one that returns an array of shape \<open>(0,)\<close> the build raises \<open>IndexError\<close>.
\<close>

theorem build_index_blank_corpus:
  "build_index encode [] = Inl (RuntimeError no_files_message) \<and>
   ingest_query digest_stand_in no_scrape blank_fetch [] =
     Some (blank_corpus, Inr [record_with []]) \<and>
   collect_docs blank_corpus = Inr ([], []) \<and>
   build_index encode blank_corpus = build_faiss_index encode [] [] \<and>
   build_index encoder_2d blank_corpus =
     Inr \<lparr>index_faiss = [], embeddings_npy = [], metadatas_pkl = []\<rparr> \<and>
   build_index encoder_1d blank_corpus = Inl IndexError"
  by (simp add: ingest_blank_article build_index_def collect_docs_blank build_faiss_index_def
      encoder_2d_def encoder_1d_def py_index_def collect_docs_no_files)

section \<open>Facts about the text of an entry\<close>











section \<open>Facts about the store\<close>















section \<open>The files a run of ingestion writes\<close>

lemma article_files_Cons:
  "set (article_files h (art # articles)) =
     set (article_files h [art]) \<union> set (article_files h articles)"
  by (simp add: article_files_def)

lemma article_files_url:
  "art = PDict a \<Longrightarrow> dict_get a (str ''url'') = PStr u \<Longrightarrow>
   record_file (h u) \<in> set (article_files h [art])"
  by (simp add: article_files_def)

lemma ingest_loop_round:
  assumes "ingest_loop h sc (art # articles) data_dir docs = Some (data_dir', outcome)"
  shows "(data_dir' = data_dir \<and> (\<exists>e. outcome = Inl e)) \<or>
    ingest_loop h sc articles data_dir docs = Some (data_dir', outcome) \<or>
    (\<exists>a u doc. art = PDict a \<and> dict_get a (str ''url'') = PStr u \<and>
       file_of_record doc = record_file (h u) \<and>
       ingest_loop h sc articles (write_json data_dir (record_file (h u)) doc) (docs @ [doc]) =
         Some (data_dir', outcome))"
proof -
  from ingest_article_cases [of h sc art data_dir docs]
  consider
    (failed) e where "ingest_article h sc art data_dir docs = Some (data_dir, Inl e)"
  | (skipped) "ingest_article h sc art data_dir docs = Some (data_dir, Inr docs)"
  | (written) a u doc where "art = PDict a" "dict_get a (str ''url'') = PStr u"
      "file_of_record doc = record_file (h u)"
      "ingest_article h sc art data_dir docs =
         Some (write_json data_dir (record_file (h u)) doc, Inr (docs @ [doc]))"
    by blast
  then show ?thesis
  proof cases
    case failed
    with assms have "data_dir' = data_dir \<and> outcome = Inl e" by simp
    then show ?thesis by simp
  next
    case skipped
    with assms have "ingest_loop h sc articles data_dir docs = Some (data_dir', outcome)"
      by simp
    then show ?thesis by simp
  next
    case written
    from written(4) assms have
      "ingest_loop h sc articles (write_json data_dir (record_file (h u)) doc) (docs @ [doc]) =
         Some (data_dir', outcome)"
      by simp
    with written(1,2,3) show ?thesis by blast
  qed
qed

lemma ingest_loop_returns:
  "\<exists>data_dir' outcome. ingest_loop h sc articles data_dir docs = Some (data_dir', outcome)"
proof (induction articles arbitrary: data_dir docs)
  case Nil
  show ?case by simp
next
  case (Cons art articles)
  from ingest_article_cases [of h sc art data_dir docs]
  obtain dir1 out1 where a: "ingest_article h sc art data_dir docs = Some (dir1, out1)"
    by blast
  show ?case
  proof (cases out1)
    case (Inl e)
    with a show ?thesis by simp
  next
    case (Inr docs1)
    with a Cons.IH [of dir1 docs1] show ?thesis by simp
  qed
qed

lemma ingest_loop_other_files:
  "ingest_loop h sc articles data_dir docs = Some (data_dir', outcome) \<Longrightarrow>
   p \<notin> set (article_files h articles) \<Longrightarrow>
   read_json data_dir' p = read_json data_dir p"
proof (induction articles arbitrary: data_dir docs)
  case Nil
  then show ?case by simp
next
  case (Cons art articles)
  from Cons.prems(2) have p1: "p \<notin> set (article_files h [art])"
    and p2: "p \<notin> set (article_files h articles)"
    by (simp_all add: article_files_Cons [of h art articles])
  from ingest_loop_round [OF Cons.prems(1)] show ?case
  proof (elim disjE exE conjE)
    assume "data_dir' = data_dir"
    then show ?thesis by simp
  next
    assume "ingest_loop h sc articles data_dir docs = Some (data_dir', outcome)"
    from Cons.IH [OF this p2] show ?thesis .
  next
    fix a u doc
    assume a: "art = PDict a" and u: "dict_get a (str ''url'') = PStr u"
      and l: "ingest_loop h sc articles (write_json data_dir (record_file (h u)) doc)
                (docs @ [doc]) = Some (data_dir', outcome)"
    from article_files_url [OF a u, of h] p1 have "p \<noteq> record_file (h u)" by auto
    with Cons.IH [OF l p2] show ?thesis by (simp add: read_json_write_json)
  qed
qed

lemma ingest_loop_keeps_files:
  "ingest_loop h sc articles data_dir docs = Some (data_dir', outcome) \<Longrightarrow>
   fst ` set data_dir \<subseteq> fst ` set data_dir'"
proof (induction articles arbitrary: data_dir docs)
  case Nil
  then show ?case by simp
next
  case (Cons art articles)
  from ingest_loop_round [OF Cons.prems(1)] show ?case
  proof (elim disjE exE conjE)
    assume "data_dir' = data_dir"
    then show ?thesis by simp
  next
    assume "ingest_loop h sc articles data_dir docs = Some (data_dir', outcome)"
    from Cons.IH [OF this] show ?thesis .
  next
    fix a u doc
    assume l: "ingest_loop h sc articles (write_json data_dir (record_file (h u)) doc)
                (docs @ [doc]) = Some (data_dir', outcome)"
    from Cons.IH [OF l] show ?thesis by (simp add: files_write_json)
  qed
qed

lemma ingest_loop_records:
  "ingest_loop h sc articles data_dir docs = Some (data_dir', Inr docs') \<Longrightarrow>
   \<exists>new. docs' = docs @ new \<and>
     (\<forall>p. p \<notin> file_of_record ` set new \<longrightarrow> read_json data_dir' p = read_json data_dir p) \<and>
     (\<forall>doc \<in> set new. \<exists>doc' \<in> set new.
        file_of_record doc' = file_of_record doc \<and>
        read_json data_dir' (file_of_record doc) = Doc doc')"
proof (induction articles arbitrary: data_dir docs)
  case Nil
  then have "docs' = docs @ []" "data_dir' = data_dir" by simp_all
  then show ?case by simp
next
  case (Cons art articles)
  from ingest_loop_round [OF Cons.prems(1)] show ?case
  proof (elim disjE exE conjE)
    fix e :: error assume "Inr docs' = Inl e"
    then show ?thesis by simp
  next
    assume "ingest_loop h sc articles data_dir docs = Some (data_dir', Inr docs')"
    from Cons.IH [OF this] show ?thesis .
  next
    fix a u doc
    assume f: "file_of_record doc = record_file (h u)"
      and l: "ingest_loop h sc articles (write_json data_dir (record_file (h u)) doc)
                (docs @ [doc]) = Some (data_dir', Inr docs')"
    define dir1 where "dir1 = write_json data_dir (record_file (h u)) doc"
    from Cons.IH [OF l] obtain new where n: "docs' = (docs @ [doc]) @ new"
      and nf: "\<forall>p. p \<notin> file_of_record ` set new \<longrightarrow> read_json data_dir' p = read_json dir1 p"
      and ns: "\<forall>d \<in> set new. \<exists>doc' \<in> set new.
              file_of_record doc' = file_of_record d \<and>
              read_json data_dir' (file_of_record d) = Doc doc'"
      unfolding dir1_def by blast
    have rd: "\<And>p. read_json dir1 p = (if p = file_of_record doc then Doc doc else read_json data_dir p)"
      by (simp add: dir1_def read_json_write_json f)
    have a: "\<forall>p. p \<notin> file_of_record ` set (doc # new) \<longrightarrow>
          read_json data_dir' p = read_json data_dir p"
    proof (intro allI impI)
      fix p assume "p \<notin> file_of_record ` set (doc # new)"
      then have "p \<noteq> file_of_record doc" "p \<notin> file_of_record ` set new" by auto
      with nf rd show "read_json data_dir' p = read_json data_dir p" by simp
    qed
    have b: "\<forall>d \<in> set (doc # new). \<exists>doc' \<in> set (doc # new).
              file_of_record doc' = file_of_record d \<and>
              read_json data_dir' (file_of_record d) = Doc doc'"
    proof
      fix d assume d: "d \<in> set (doc # new)"
      show "\<exists>doc' \<in> set (doc # new).
              file_of_record doc' = file_of_record d \<and>
              read_json data_dir' (file_of_record d) = Doc doc'"
      proof (cases "file_of_record d \<in> file_of_record ` set new")
        case True
        then obtain d' where d': "d' \<in> set new" and e: "file_of_record d' = file_of_record d"
          by auto
        from ns d' obtain doc' where "doc' \<in> set new"
          "file_of_record doc' = file_of_record d'"
          "read_json data_dir' (file_of_record d') = Doc doc'" by blast
        with e have "doc' \<in> set (doc # new) \<and> file_of_record doc' = file_of_record d \<and>
              read_json data_dir' (file_of_record d) = Doc doc'" by simp
        then show ?thesis by blast
      next
        case False
        with d have dd: "file_of_record d = file_of_record doc"
          by auto
        from False nf have "read_json data_dir' (file_of_record d) = read_json dir1 (file_of_record d)"
          by simp
        with dd rd have "read_json data_dir' (file_of_record d) = Doc doc" by simp
        with dd have "doc \<in> set (doc # new) \<and> file_of_record doc = file_of_record d \<and>
              read_json data_dir' (file_of_record d) = Doc doc" by simp
        then show ?thesis by blast
      qed
    qed
    from n have "docs' = docs @ (doc # new)" by simp
    with a b have "docs' = docs @ (doc # new) \<and>
     (\<forall>p. p \<notin> file_of_record ` set (doc # new) \<longrightarrow> read_json data_dir' p = read_json data_dir p) \<and>
     (\<forall>d \<in> set (doc # new). \<exists>doc' \<in> set (doc # new).
        file_of_record doc' = file_of_record d \<and>
        read_json data_dir' (file_of_record d) = Doc doc')"
      by (intro conjI)
    then show ?thesis by (rule exI)
  qed
qed

lemma chunk_text_short:
  assumes "py_split t = ws" and "ws \<noteq> []" and "length ws \<le> 300"
  shows "chunk_text t 350 50 = Some [py_join [32] ws]"
proof -
  have "windows_from ws 350 300 0 = take 350 (drop 0 ws) # windows_from ws 350 300 (0 + 300)"
    using assms(2) by (intro windows_from_step) simp_all
  also have "windows_from ws 350 300 (0 + 300) = []"
    using assms(3) by (intro windows_from_done) simp
  finally have "windows_from ws 350 300 0 = [ws]" using assms(3) by simp
  with chunk_text_windows [of 50 350 t] assms(1) show ?thesis by simp
qed

lemma chunk_text_old: "chunk_text (str ''old text'') 350 50 = Some [str ''old text'']"
proof -
  have "py_split (str ''old text'') = [str ''old'', str ''text'']"
    by (simp add: py_split_def str_def is_space_def)
  from chunk_text_short [OF this] have
    "chunk_text (str ''old text'') 350 50 = Some [py_join [32] [str ''old'', str ''text'']]"
    by simp
  then show ?thesis by (simp add: str_def)
qed

lemma chunk_text_new: "chunk_text (str ''new text'') 350 50 = Some [str ''new text'']"
proof -
  have "py_split (str ''new text'') = [str ''new'', str ''text'']"
    by (simp add: py_split_def str_def is_space_def)
  from chunk_text_short [OF this] have
    "chunk_text (str ''new text'') 350 50 = Some [py_join [32] [str ''new'', str ''text'']]"
    by simp
  then show ?thesis by (simp add: str_def)
qed

lemma ingest_first_fetch:
  "ingest_query h no_scrape first_fetch data_dir =
     Some (write_json data_dir (record_file (h (str ''u''))) (record_for h [str ''old text'']),
           Inr [record_for h [str ''old text'']])"
  by (simp add: ingest_query_def ingest_article_def first_fetch_def no_scrape_def
      dict_get_def dict_get_default_def py_or_def source_name_def chunk_text_old
      record_for_def Let_def)

lemma ingest_second_fetch:
  "ingest_query h no_scrape second_fetch data_dir =
     Some (write_json data_dir (record_file (h (str ''u''))) (record_for h [str ''new text'']),
           Inr [record_for h [str ''new text'']])"
  by (simp add: ingest_query_def ingest_article_def second_fetch_def no_scrape_def
      dict_get_def dict_get_default_def py_or_def source_name_def chunk_text_new
      record_for_def Let_def)

text \<open>
  C9. The specification takes a record file to be immutable once written. What holds for
  one run of \<open>ingest_query\<close>, for every digest function, every scraper, every list of
  fetched articles and every directory: the run ends (with the list of ingested records
  or with an exception); no file is removed; every file other than the record files of the
  fetched articles reads as before; and when the run returns, every file that is not the
  file of a returned record reads as before, while the file of a returned record holds a
  record that this run returned for it. The file of an article that was already
  present is among the files the run writes.
\<close>

theorem ingest_query_frame:
  "\<exists>data_dir' outcome.
     ingest_query h sc articles data_dir = Some (data_dir', outcome) \<and>
     fst ` set data_dir \<subseteq> fst ` set data_dir' \<and>
     (\<forall>p. p \<notin> set (article_files h articles) \<longrightarrow>
          read_json data_dir' p = read_json data_dir p) \<and>
     (\<forall>docs. outcome = Inr docs \<longrightarrow>
        (\<forall>p. p \<notin> file_of_record ` set docs \<longrightarrow>
             read_json data_dir' p = read_json data_dir p) \<and>
        (\<forall>doc \<in> set docs. \<exists>doc' \<in> set docs.
           file_of_record doc' = file_of_record doc \<and>
           read_json data_dir' (file_of_record doc) = Doc doc'))"
proof -
  from ingest_loop_returns [of h sc articles data_dir "[]"] obtain data_dir' outcome where
    r: "ingest_loop h sc articles data_dir [] = Some (data_dir', outcome)" by blast
  have a: "fst ` set data_dir \<subseteq> fst ` set data_dir'"
    by (rule ingest_loop_keeps_files [OF r])
  have b: "\<forall>p. p \<notin> set (article_files h articles) \<longrightarrow>
          read_json data_dir' p = read_json data_dir p"
    using ingest_loop_other_files [OF r] by blast
  have c: "\<forall>docs. outcome = Inr docs \<longrightarrow>
        (\<forall>p. p \<notin> file_of_record ` set docs \<longrightarrow>
             read_json data_dir' p = read_json data_dir p) \<and>
        (\<forall>doc \<in> set docs. \<exists>doc' \<in> set docs.
           file_of_record doc' = file_of_record doc \<and>
           read_json data_dir' (file_of_record doc) = Doc doc')"
  proof (intro allI impI)
    fix docs assume "outcome = Inr docs"
    with r have "ingest_loop h sc articles data_dir [] = Some (data_dir', Inr docs)" by simp
    from ingest_loop_records [OF this] show
      "(\<forall>p. p \<notin> file_of_record ` set docs \<longrightarrow>
             read_json data_dir' p = read_json data_dir p) \<and>
        (\<forall>doc \<in> set docs. \<exists>doc' \<in> set docs.
           file_of_record doc' = file_of_record doc \<and>
           read_json data_dir' (file_of_record doc) = Doc doc')"
      by simp
  qed
  from r have "ingest_query h sc articles data_dir = Some (data_dir', outcome)"
    by (simp add: ingest_query_def)
  with a b c have "ingest_query h sc articles data_dir = Some (data_dir', outcome) \<and>
     fst ` set data_dir \<subseteq> fst ` set data_dir' \<and>
     (\<forall>p. p \<notin> set (article_files h articles) \<longrightarrow>
          read_json data_dir' p = read_json data_dir p) \<and>
     (\<forall>docs. outcome = Inr docs \<longrightarrow>
        (\<forall>p. p \<notin> file_of_record ` set docs \<longrightarrow>
             read_json data_dir' p = read_json data_dir p) \<and>
        (\<forall>doc \<in> set docs. \<exists>doc' \<in> set docs.
           file_of_record doc' = file_of_record doc \<and>
           read_json data_dir' (file_of_record doc) = Doc doc'))"
    by (intro conjI)
  then show ?thesis by (intro exI)
qed

theorem ingest_query_frame_witness:
  "str ''data/id-v.json'' \<notin> set (article_files digest_stand_in second_fetch) \<and>
   (\<exists>data_dir' docs.
      ingest_query digest_stand_in no_scrape second_fetch earlier_runs =
        Some (data_dir', Inr docs) \<and>
      docs = [record_for digest_stand_in [str ''new text'']] \<and>
      str ''data/id-v.json'' \<in> fst ` set data_dir' \<and>
      read_json data_dir' (str ''data/id-v.json'') =
        read_json earlier_runs (str ''data/id-v.json'') \<and>
      read_json data_dir' (str ''data/id-u.json'') =
        Doc (record_for digest_stand_in [str ''new text'']))"
proof -
  define doc where "doc = record_for digest_stand_in [str ''new text'']"
  have n: "str ''data/id-v.json'' \<notin> set (article_files digest_stand_in second_fetch)"
    by (simp add: article_files_def second_fetch_def dict_get_def record_file_def
        digest_stand_in_def str_def)
  have m: "str ''data/id-v.json'' \<in> fst ` set earlier_runs"
    by (simp add: earlier_runs_def)
  have f: "file_of_record doc = str ''data/id-u.json''"
    by (simp add: doc_def record_for_def file_of_record_def dict_get_def record_file_def
        digest_stand_in_def str_def)
  from ingest_query_frame [of digest_stand_in no_scrape second_fetch earlier_runs]
  obtain data_dir' outcome where
    r: "ingest_query digest_stand_in no_scrape second_fetch earlier_runs = Some (data_dir', outcome)"
    and k: "fst ` set earlier_runs \<subseteq> fst ` set data_dir'"
    and o: "\<forall>p. p \<notin> set (article_files digest_stand_in second_fetch) \<longrightarrow>
          read_json data_dir' p = read_json earlier_runs p"
    and d: "\<forall>docs. outcome = Inr docs \<longrightarrow>
        (\<forall>p. p \<notin> file_of_record ` set docs \<longrightarrow>
             read_json data_dir' p = read_json earlier_runs p) \<and>
        (\<forall>doc \<in> set docs. \<exists>doc' \<in> set docs.
           file_of_record doc' = file_of_record doc \<and>
           read_json data_dir' (file_of_record doc) = Doc doc')"
    by blast
  from r have out: "outcome = Inr [doc]"
    by (simp add: ingest_second_fetch doc_def)
  with d have "\<forall>d \<in> set [doc]. \<exists>doc' \<in> set [doc].
           file_of_record doc' = file_of_record d \<and>
           read_json data_dir' (file_of_record d) = Doc doc'"
    by blast
  then have "read_json data_dir' (str ''data/id-u.json'') = Doc doc"
    by (simp add: f)
  moreover from o n have "read_json data_dir' (str ''data/id-v.json'') =
        read_json earlier_runs (str ''data/id-v.json'')" by blast
  moreover from k m have "str ''data/id-v.json'' \<in> fst ` set data_dir'" by blast
  moreover from r out have "ingest_query digest_stand_in no_scrape second_fetch earlier_runs =
        Some (data_dir', Inr [doc])" by simp
  ultimately show ?thesis using n unfolding doc_def by blast
qed

text \<open>
  Two runs that fetch the same URL with different content, for every digest function:
  the first writes the record file of the URL, and the second replaces what it holds.
\<close>

theorem ingest_query_rewrites_record:
  "\<forall>h. ingest_query h no_scrape first_fetch [] =
          Some ([(record_file (h (str ''u'')), Doc (record_for h [str ''old text'']))],
                Inr [record_for h [str ''old text'']]) \<and>
        ingest_query h no_scrape second_fetch
          [(record_file (h (str ''u'')), Doc (record_for h [str ''old text'']))] =
          Some ([(record_file (h (str ''u'')), Doc (record_for h [str ''new text'']))],
                Inr [record_for h [str ''new text'']]) \<and>
        record_for h [str ''old text''] \<noteq> record_for h [str ''new text'']"
  by (simp add: ingest_first_fetch ingest_second_fetch record_for_def)

end
